theory Spec2Isabelle
  imports Main "HOL-Library.Char_ord" "HOL-Library.List_Lexorder" "HOL-Library.Multiset"
begin

section \<open>Python values used by BWT.py\<close>

text \<open>
  Strings are \<open>string\<close> (lists of \<open>char\<close>), compared as Python compares \<open>str\<close>:
  lexicographically by code point, a proper prefix being smaller (the order of
  \<open>List_Lexorder\<close> over \<open>Char_ord\<close>). A one-character string (an element of a
  column, a dictionary key) is a \<open>char\<close>. Python's \<open>sorted\<close> is a stable sort, as
  \<open>sort_key\<close> is. Exceptions are values of \<open>py_error\<close>.
\<close>

datatype py_error = IndexError | KeyError | TypeError | AttributeError

text \<open>\<open>xs[i]\<close>: a negative index counts from the end, anything out of range raises.\<close>

definition py_get :: "'a list \<Rightarrow> int \<Rightarrow> py_error + 'a" where
  "py_get xs i =
     (if 0 \<le> i \<and> i < int (length xs) then Inr (xs ! nat i)
      else if i < 0 \<and> - int (length xs) \<le> i then Inr (xs ! nat (int (length xs) + i))
      else Inl IndexError)"

text \<open>A \<open>dict\<close> keeps its keys in insertion order: an association list with distinct keys.\<close>

fun dict_set :: "('k \<times> 'v) list \<Rightarrow> 'k \<Rightarrow> 'v \<Rightarrow> ('k \<times> 'v) list" where
  "dict_set [] k v = [(k, v)]"
| "dict_set ((k', v') # d) k v =
     (if k' = k then (k', v) # d else (k', v') # dict_set d k v)"

definition dict_get :: "('k \<times> 'v) list \<Rightarrow> 'k \<Rightarrow> py_error + 'v" where
  "dict_get d k = (case map_of d k of None \<Rightarrow> Inl KeyError | Some v \<Rightarrow> Inr v)"

text \<open>\<open>str(i)\<close> of an integer: decimal digits, with a leading minus sign when negative.\<close>

definition digit_char :: "nat \<Rightarrow> char" where
  "digit_char d = char_of (48 + d)"

fun str_nat :: "nat \<Rightarrow> string" where
  "str_nat n = (if n < 10 then [digit_char n] else str_nat (n div 10) @ [digit_char (n mod 10)])"

declare str_nat.simps [simp del]

definition str_int :: "int \<Rightarrow> string" where
  "str_int i = (if i < 0 then CHR ''-'' # str_nat (nat (- i)) else str_nat (nat i))"

text \<open>Running a fallible function over a list, stopping at the first exception.\<close>

fun map_err :: "('a \<Rightarrow> py_error + 'b) \<Rightarrow> 'a list \<Rightarrow> py_error + 'b list" where
  "map_err f [] = Inr []"
| "map_err f (x # xs) =
     (case f x of Inl e \<Rightarrow> Inl e
      | Inr y \<Rightarrow> (case map_err f xs of Inl e \<Rightarrow> Inl e | Inr ys \<Rightarrow> Inr (y # ys)))"

section \<open>The class BWT\<close>

text \<open>
  The attribute \<open>suffix_array\<close> of an instance is the bound method of the class until
  the method runs; the method then stores its result under the same name.
\<close>

datatype sa_attr = SA_Method | SA_List "nat list"

record bwt_obj =
  seqOriginal :: string
  listaSequenciaOriginal :: string
  dicionarioOcorrencias :: "(char \<times> int) list option"
  suffix_array_attr :: sa_attr

definition BWT_init :: "string \<Rightarrow> bwt_obj" where
  "BWT_init seq =
     \<lparr>seqOriginal = seq, listaSequenciaOriginal = [],
      dicionarioOcorrencias = None, suffix_array_attr = SA_Method\<rparr>"

subsection \<open>Rotation matrix and transform\<close>

text \<open>
  \<open>criarMatriz\<close>: \<open>len(seq)\<close> iterations, each appending \<open>seq\<close> and replacing it by
  \<open>seq[-1] + seq[:len(seq)-1]\<close>; \<open>seq[-1]\<close> raises on the empty string.
\<close>

fun criarMatriz_loop :: "nat \<Rightarrow> string \<Rightarrow> string list \<Rightarrow> py_error + string list" where
  "criarMatriz_loop 0 seq matriz = Inr matriz"
| "criarMatriz_loop (Suc k) seq matriz =
     (if seq = [] then Inl IndexError
      else criarMatriz_loop k (last seq # take (length seq - 1) seq) (matriz @ [seq]))"

definition criarMatriz :: "string \<Rightarrow> py_error + string list" where
  "criarMatriz seq = criarMatriz_loop (length seq) seq []"

definition ordenarMatriz :: "string list \<Rightarrow> string list" where
  "ordenarMatriz matriz = sort matriz"

fun construirBWT_loop :: "string list \<Rightarrow> string \<Rightarrow> py_error + string" where
  "construirBWT_loop [] bwt = Inr bwt"
| "construirBWT_loop (linha # matriz) bwt =
     (if linha = [] then Inl IndexError else construirBWT_loop matriz (bwt @ [last linha]))"

definition construirBWT :: "string list \<Rightarrow> py_error + string" where
  "construirBWT matriz = construirBWT_loop matriz []"

text \<open>The transform as \<open>procuraPadraoBWT\<close> and the driver compose it.\<close>

definition transform :: "string \<Rightarrow> py_error + string" where
  "transform seq =
     (case criarMatriz seq of Inl e \<Rightarrow> Inl e
      | Inr matriz \<Rightarrow> construirBWT (ordenarMatriz matriz))"

subsection \<open>Columns and rank tags\<close>

definition criarPrimeiraColuna :: "string \<Rightarrow> char list" where
  "criarPrimeiraColuna bwt = sort bwt"

fun criarUltimaColuna_loop :: "string \<Rightarrow> char list \<Rightarrow> char list" where
  "criarUltimaColuna_loop [] lista = lista"
| "criarUltimaColuna_loop (item # bwt) lista = criarUltimaColuna_loop bwt (lista @ [item])"

definition criarUltimaColuna :: "string \<Rightarrow> char list" where
  "criarUltimaColuna bwt = criarUltimaColuna_loop bwt []"

fun criarDicionario_loop :: "string \<Rightarrow> (char \<times> int) list \<Rightarrow> (char \<times> int) list" where
  "criarDicionario_loop [] d = d"
| "criarDicionario_loop (letra # bwt) d = criarDicionario_loop bwt (dict_set d letra (- 1))"

definition criarDicionarioOcorrencias :: "bwt_obj \<Rightarrow> string \<Rightarrow> bwt_obj" where
  "criarDicionarioOcorrencias self bwt =
     self\<lparr>dicionarioOcorrencias := Some (criarDicionario_loop bwt [])\<rparr>"

text \<open>
  \<open>decidirCaracter\<close>: when \<open>item == chave\<close>, increment the counter of \<open>chave\<close> and
  append \<open>item + str(counter)\<close>. Reading a missing attribute or key raises.
\<close>

definition decidirCaracter ::
  "bwt_obj \<Rightarrow> char \<Rightarrow> char \<Rightarrow> string list \<Rightarrow> py_error + (bwt_obj \<times> string list)" where
  "decidirCaracter self item chave lista =
     (if item = chave then
        (case dicionarioOcorrencias self of
           None \<Rightarrow> Inl AttributeError
         | Some d \<Rightarrow>
             (case dict_get d chave of
                Inl e \<Rightarrow> Inl e
              | Inr v \<Rightarrow>
                  Inr (self\<lparr>dicionarioOcorrencias := Some (dict_set d chave (v + 1))\<rparr>,
                       lista @ [item # str_int (v + 1)])))
      else Inr (self, lista))"

fun preencher_chaves ::
  "char list \<Rightarrow> bwt_obj \<Rightarrow> char \<Rightarrow> string list \<Rightarrow> py_error + (bwt_obj \<times> string list)" where
  "preencher_chaves [] self item lista = Inr (self, lista)"
| "preencher_chaves (chave # chaves) self item lista =
     (case decidirCaracter self item chave lista of
        Inl e \<Rightarrow> Inl e
      | Inr (self', lista') \<Rightarrow> preencher_chaves chaves self' item lista')"

fun preencher_itens ::
  "char list \<Rightarrow> bwt_obj \<Rightarrow> string list \<Rightarrow> py_error + (bwt_obj \<times> string list)" where
  "preencher_itens [] self lista = Inr (self, lista)"
| "preencher_itens (item # itens) self lista =
     (case dicionarioOcorrencias self of
        None \<Rightarrow> Inl AttributeError
      | Some d \<Rightarrow>
          (case preencher_chaves (map fst d) self item lista of
             Inl e \<Rightarrow> Inl e
           | Inr (self', lista') \<Rightarrow> preencher_itens itens self' lista'))"

fun repor_chaves :: "char list \<Rightarrow> (char \<times> int) list \<Rightarrow> (char \<times> int) list" where
  "repor_chaves [] d = d"
| "repor_chaves (chave # chaves) d = repor_chaves chaves (dict_set d chave (- 1))"

definition preencherLista ::
  "bwt_obj \<Rightarrow> char list \<Rightarrow> string list \<Rightarrow> py_error + (bwt_obj \<times> string list)" where
  "preencherLista self listaSequencias listaConcatenada =
     (case preencher_itens listaSequencias self listaConcatenada of
        Inl e \<Rightarrow> Inl e
      | Inr (self', lista') \<Rightarrow>
          (case dicionarioOcorrencias self' of
             None \<Rightarrow> Inl AttributeError
           | Some d \<Rightarrow>
               Inr (self'\<lparr>dicionarioOcorrencias := Some (repor_chaves (map fst d) d)\<rparr>, lista')))"

subsection \<open>Reconstruction\<close>

text \<open>
  One pass of the \<open>for\<close> loop of \<open>obterSequenciaOriginal\<close> over the rest of the last
  column. The result says whether the pass executed \<open>return\<close>, and gives the current
  tag and the collected list.
\<close>

fun obter_loop ::
  "string list \<Rightarrow> int \<Rightarrow> int \<Rightarrow> string list \<Rightarrow> string \<Rightarrow> string
     \<Rightarrow> py_error + (bool \<times> string \<times> string)" where
  "obter_loop [] indice comprimento primeiraColuna letra lista = Inr (False, letra, lista)"
| "obter_loop (item # ultimaColuna) indice comprimento primeiraColuna letra lista =
     (case (if item = letra then
              (if letra = [] then Inl IndexError
               else (case py_get primeiraColuna (indice + 1) of
                       Inl e \<Rightarrow> Inl e
                     | Inr letra' \<Rightarrow> Inr (letra', lista @ [hd letra])))
            else Inr (letra, lista)) of
        Inl e \<Rightarrow> Inl e
      | Inr (letra', lista') \<Rightarrow>
          if int (length lista') = comprimento then Inr (True, letra', lista')
          else obter_loop ultimaColuna (indice + 1) comprimento primeiraColuna letra' lista')"

text \<open>
  The method calls itself whenever a pass ends without \<open>return\<close>, with no bound of its
  own. The first argument bounds the depth of the recursion; \<open>None\<close> means that the
  call has not returned within that depth.
\<close>

fun obterSequenciaOriginal ::
  "nat \<Rightarrow> bwt_obj \<Rightarrow> string \<Rightarrow> int \<Rightarrow> string list \<Rightarrow> string list
     \<Rightarrow> (py_error + bwt_obj) option" where
  "obterSequenciaOriginal 0 self letra comprimento primeiraColuna ultimaColuna = None"
| "obterSequenciaOriginal (Suc depth) self letra comprimento primeiraColuna ultimaColuna =
     (case obter_loop ultimaColuna (- 1) comprimento primeiraColuna letra
             (listaSequenciaOriginal self) of
        Inl e \<Rightarrow> Some (Inl e)
      | Inr (returned, letra', lista') \<Rightarrow>
          if returned then Some (Inr (self\<lparr>listaSequenciaOriginal := lista'\<rparr>))
          else obterSequenciaOriginal depth (self\<lparr>listaSequenciaOriginal := lista'\<rparr>)
                 letra' comprimento primeiraColuna ultimaColuna)"

definition SequenciaOriginalEmString :: "bwt_obj \<Rightarrow> py_error + string" where
  "SequenciaOriginalEmString self =
     (let seqOriginal = listaSequenciaOriginal self
      in if seqOriginal = [] then Inl IndexError
         else Inr (drop 1 seqOriginal @ [hd seqOriginal]))"

subsection \<open>Suffix array and search\<close>

definition suffix_array :: "bwt_obj \<Rightarrow> string \<Rightarrow> py_error + (bwt_obj \<times> nat list)" where
  "suffix_array self seq =
     (case suffix_array_attr self of
        SA_List l \<Rightarrow> Inl TypeError
      | SA_Method \<Rightarrow>
          (let sa = sort_key (\<lambda>i. drop i seq) [0..<length seq]
           in Inr (self\<lparr>suffix_array_attr := SA_List sa\<rparr>, sa)))"

text \<open>
  The count table: one vector of \<open>len(bwt) + 1\<close> zeros per distinct symbol, then for
  \<open>i = 1 .. len(bwt)\<close> every vector copies entry \<open>i - 1\<close> to entry \<open>i\<close> and the vector
  of \<open>bwt[i - 1]\<close> adds one at \<open>i\<close>.
\<close>

definition count_init :: "string \<Rightarrow> (char \<times> int list) list" where
  "count_init bwt = map (\<lambda>c. (c, replicate (length bwt + 1) 0)) (remdups bwt)"

definition count_step :: "string \<Rightarrow> (char \<times> int list) list \<Rightarrow> nat \<Rightarrow> (char \<times> int list) list" where
  "count_step bwt cnt i =
     (let cnt' = map (\<lambda>(c, v). (c, v[i := v ! (i - 1)])) cnt
      in map (\<lambda>(c, v). if c = bwt ! (i - 1) then (c, v[i := v ! i + 1]) else (c, v)) cnt')"

definition count_table :: "string \<Rightarrow> (char \<times> int list) list" where
  "count_table bwt = foldl (count_step bwt) (count_init bwt) [1..<length bwt + 1]"

text \<open>The first-occurrence table: a scan of the sorted symbols keeping the first index.\<close>

fun first_occurrence_loop :: "nat \<Rightarrow> string \<Rightarrow> (char \<times> int) list \<Rightarrow> (char \<times> int) list" where
  "first_occurrence_loop i [] fo = fo"
| "first_occurrence_loop i (c # cs) fo =
     first_occurrence_loop (Suc i) cs
       (if map_of fo c = None then dict_set fo c (int i) else fo)"

definition first_occurrence_table :: "string \<Rightarrow> (char \<times> int) list" where
  "first_occurrence_table sorted_bwt = first_occurrence_loop 0 sorted_bwt []"

definition sa_index :: "sa_attr \<Rightarrow> int \<Rightarrow> py_error + nat" where
  "sa_index sa i = (case sa of SA_Method \<Rightarrow> Inl TypeError | SA_List l \<Rightarrow> py_get l i)"

text \<open>The \<open>while top <= bottom\<close> loop of \<open>procuraPadraoBWT\<close>.\<close>

function fm_loop ::
  "(char \<times> int list) list \<Rightarrow> (char \<times> int) list \<Rightarrow> sa_attr \<Rightarrow> int \<Rightarrow> int \<Rightarrow> string
     \<Rightarrow> py_error + nat list" where
  "fm_loop cnt fo sa top_idx bottom_idx pattern =
     (if top_idx \<le> bottom_idx then
        (if pattern \<noteq> [] then
           (case dict_get cnt (last pattern) of
              Inl e \<Rightarrow> Inl e
            | Inr cv \<Rightarrow>
                (case py_get cv (bottom_idx + 1) of
                   Inl e \<Rightarrow> Inl e
                 | Inr cb \<Rightarrow>
                     (case py_get cv top_idx of
                        Inl e \<Rightarrow> Inl e
                      | Inr ct \<Rightarrow>
                          if cb > ct then
                            (case dict_get fo (last pattern) of
                               Inl e \<Rightarrow> Inl e
                             | Inr f \<Rightarrow> fm_loop cnt fo sa (f + ct) (f + cb - 1) (butlast pattern))
                          else Inr [])))
         else (case map_err (sa_index sa) [top_idx..bottom_idx] of
                 Inl e \<Rightarrow> Inl e
               | Inr r \<Rightarrow> Inr (sort r)))
      else Inr [])"
  by pat_completeness auto
termination
  by (relation "measure (\<lambda>(cnt, fo, sa, top_idx, bottom_idx, pattern). length pattern)") auto

declare fm_loop.simps [simp del]

definition procuraPadraoBWT :: "bwt_obj \<Rightarrow> string \<Rightarrow> py_error + nat list" where
  "procuraPadraoBWT self pattern =
     (case transform (seqOriginal self) of
        Inl e \<Rightarrow> Inl e
      | Inr bwt \<Rightarrow>
          fm_loop (count_table bwt) (first_occurrence_table (sort bwt))
            (suffix_array_attr self) 0 (int (length bwt) - 1) pattern)"

subsection \<open>The operations of the interface\<close>

text \<open>
  \<open>invert\<close>: the driver's sequence of calls on a fresh instance, from a BWT string to
  the reconstructed sequence, the walk starting at the tag of the sentinel's occurrence 0.
\<close>

definition invert :: "nat \<Rightarrow> char \<Rightarrow> string \<Rightarrow> (py_error + string) option" where
  "invert depth sentinel bwt =
     (let classe = criarDicionarioOcorrencias (BWT_init []) bwt;
          primeiraColuna = criarPrimeiraColuna bwt;
          ultimaColuna = criarUltimaColuna bwt
      in case preencherLista classe primeiraColuna [] of
           Inl e \<Rightarrow> Some (Inl e)
         | Inr (classe1, listaConcatenadaPrimeiraColuna) \<Rightarrow>
             (case preencherLista classe1 ultimaColuna [] of
                Inl e \<Rightarrow> Some (Inl e)
              | Inr (classe2, listaConcatenadaUltimaColuna) \<Rightarrow>
                  (case obterSequenciaOriginal depth classe2 (sentinel # str_int 0)
                          (int (length listaConcatenadaUltimaColuna))
                          listaConcatenadaPrimeiraColuna listaConcatenadaUltimaColuna of
                     None \<Rightarrow> None
                   | Some (Inl e) \<Rightarrow> Some (Inl e)
                   | Some (Inr classe3) \<Rightarrow> Some (SequenciaOriginalEmString classe3))))"

text \<open>
  \<open>search\<close>: the driver's calls on a fresh instance of the sequence, \<open>suffix_array\<close>
  of the same sequence first, \<open>procuraPadraoBWT\<close> after it.
\<close>

definition search :: "string \<Rightarrow> string \<Rightarrow> py_error + nat list" where
  "search seq pattern =
     (case suffix_array (BWT_init seq) seq of
        Inl e \<Rightarrow> Inl e
      | Inr (classe, arraySufixos) \<Rightarrow> procuraPadraoBWT classe pattern)"

section \<open>Notions used in the statements\<close>

text \<open>Rotation to the right by one position, the step of \<open>criarMatriz\<close>.\<close>

definition rotr :: "'a list \<Rightarrow> 'a list" where
  "rotr xs = (if xs = [] then [] else last xs # butlast xs)"

text \<open>
  The rank tags of a column: position \<open>j\<close> holding symbol \<open>c\<close> gets \<open>c\<close> followed by the
  decimal count of the occurrences of \<open>c\<close> before \<open>j\<close> in the column.
\<close>

definition rank_tags :: "char list \<Rightarrow> string list" where
  "rank_tags col =
     map (\<lambda>j. col ! j # str_int (int (count_list (take j col) (col ! j)))) [0..<length col]"

text \<open>The dictionary with keys \<open>ks\<close>, in this order, and the value \<open>f k\<close> under \<open>k\<close>.\<close>

definition dict_of :: "'k list \<Rightarrow> ('k \<Rightarrow> 'v) \<Rightarrow> ('k \<times> 'v) list" where
  "dict_of ks f = map (\<lambda>k. (k, f k)) ks"

text \<open>The tags of a column that follows the symbols \<open>pre\<close>.\<close>

fun tags_from :: "char list \<Rightarrow> char list \<Rightarrow> string list" where
  "tags_from pre [] = []"
| "tags_from pre (c # cs) = (c # str_int (int (count_list pre c))) # tags_from (pre @ [c]) cs"

text \<open>
  A sequence terminated by the sentinel: the sentinel is its last symbol and every other
  symbol is greater.
\<close>

definition terminated :: "'a::linorder \<Rightarrow> 'a list \<Rightarrow> bool" where
  "terminated sen seq \<longleftrightarrow> seq \<noteq> [] \<and> last seq = sen \<and> (\<forall>c\<in>set (butlast seq). sen < c)"

text \<open>The rotations to the left, and the sorted rotation matrix.\<close>

definition rotations :: "'a list \<Rightarrow> 'a list list" where
  "rotations seq = map (\<lambda>i. rotate i seq) [0..<length seq]"

definition sorted_rotations :: "'a::linorder list \<Rightarrow> 'a list list" where
  "sorted_rotations seq = sort (rotations seq)"

text \<open>
  Rank of position \<open>i\<close> for symbol \<open>c\<close> in a column, number of symbols of a column below
  \<open>c\<close>, and the last-to-first mapping of the FM index.
\<close>

definition occ :: "'a list \<Rightarrow> 'a \<Rightarrow> nat \<Rightarrow> nat" where
  "occ col c i = count_list (take i col) c"

definition less_count :: "'a::linorder list \<Rightarrow> 'a \<Rightarrow> nat" where
  "less_count col c = length (filter (\<lambda>x. x < c) col)"

definition LF :: "'a::linorder list \<Rightarrow> nat \<Rightarrow> nat" where
  "LF col k = less_count col (col ! k) + occ col (col ! k) k"

text \<open>
  The vector of symbol \<open>c\<close> in the count table after the outer loop has reached \<open>j\<close>:
  entries \<open>0 .. j\<close> hold the ranks, the others are still zero.
\<close>

definition count_row :: "string \<Rightarrow> char \<Rightarrow> nat \<Rightarrow> int list" where
  "count_row bwt c j =
     map (\<lambda>i. if i \<le> j then int (occ bwt c i) else 0) [0..<length bwt + 1]"

text \<open>
  The brute-force scan of the search oracle: the indices \<open>i\<close>, ascending, with
  \<open>seq[i : i + len(pattern)] == pattern\<close>.
\<close>

definition brute_force_scan :: "'a list \<Rightarrow> 'a list \<Rightarrow> nat list" where
  "brute_force_scan seq pattern =
     filter (\<lambda>i. take (length pattern) (drop i seq) = pattern) [0..<length seq]"

text \<open>The rotations starting with the pattern.\<close>

definition cyclic_scan :: "'a list \<Rightarrow> 'a list \<Rightarrow> nat list" where
  "cyclic_scan seq pattern =
     filter (\<lambda>i. take (length pattern) (rotate i seq) = pattern) [0..<length seq]"

section \<open>The rotation matrix\<close>

lemma rotr_rotate1: "rotr (rotate1 xs) = xs"
  by (cases xs) (simp_all add: rotr_def)

lemma rotate1_rotr: "rotate1 (rotr xs) = xs"
  by (simp add: rotr_def)

lemma length_rotr: "length (rotr xs) = length xs"
  by (simp add: rotr_def)

lemma rotr_Nil_iff: "rotr xs = [] \<longleftrightarrow> xs = []"
  by (simp add: rotr_def)

lemma rotr_funpow: "j \<le> length xs \<Longrightarrow> (rotr ^^ j) xs = rotate (length xs - j) xs"
proof (induction j)
  case 0
  then show ?case by simp
next
  case (Suc j)
  then have "length xs - j = Suc (length xs - Suc j)" by simp
  then have "rotate (length xs - j) xs = rotate1 (rotate (length xs - Suc j) xs)"
    by simp
  with Suc show ?case by (simp add: rotr_rotate1)
qed

lemma criarMatriz_loop_eq:
  "seq \<noteq> [] \<Longrightarrow>
     criarMatriz_loop k seq m = Inr (m @ map (\<lambda>j. (rotr ^^ j) seq) [0..<k])"
proof (induction k arbitrary: seq m)
  case 0
  then show ?case by simp
next
  case (Suc k)
  have step: "last seq # take (length seq - 1) seq = rotr seq"
    using Suc.prems by (simp add: rotr_def butlast_conv_take)
  have ne: "rotr seq \<noteq> []" using Suc.prems by (simp add: rotr_Nil_iff)
  have "map (\<lambda>j. (rotr ^^ j) seq) [0..<Suc k] = seq # map (\<lambda>j. (rotr ^^ j) (rotr seq)) [0..<k]"
    by (simp only: map_upt_Suc funpow_Suc_right) simp
  with Suc.IH [OF ne] Suc.prems step show ?case
    by simp
qed

lemma criarMatriz_eq:
  "criarMatriz seq = Inr (map (\<lambda>j. rotate (length seq - j) seq) [0..<length seq])"
proof (cases "seq = []")
  case True
  then show ?thesis by (simp add: criarMatriz_def)
next
  case False
  then show ?thesis
    by (simp add: criarMatriz_def criarMatriz_loop_eq rotr_funpow)
qed

lemma construirBWT_loop_eq:
  "\<forall>linha\<in>set matriz. linha \<noteq> [] \<Longrightarrow>
     construirBWT_loop matriz bwt = Inr (bwt @ map last matriz)"
  by (induction matriz arbitrary: bwt) simp_all

lemma last_rotate:
  assumes "xs \<noteq> []"
  shows "last (rotate i xs) = xs ! ((i + length xs - 1) mod length xs)"
proof -
  have "last (rotate i xs) = rotate i xs ! (length xs - 1)"
    using assms by (simp add: last_conv_nth)
  also have "\<dots> = xs ! ((i + (length xs - 1)) mod length xs)"
    using assms by (simp add: nth_rotate)
  finally show ?thesis using assms by (simp add: Suc_leI)
qed

lemma transform_eq:
  "transform seq =
     Inr (map last (sort (map (\<lambda>j. rotate (length seq - j) seq) [0..<length seq])))"
proof -
  have "\<forall>linha\<in>set (sort (map (\<lambda>j. rotate (length seq - j) seq) [0..<length seq])). linha \<noteq> []"
    by auto
  then show ?thesis
    by (simp add: transform_def criarMatriz_eq ordenarMatriz_def construirBWT_def
        construirBWT_loop_eq)
qed

lemma map_last_rows: "map last (map (\<lambda>j. rotate (length seq - j) seq) [0..<length seq]) = rev seq"
proof (rule nth_equalityI)
  show "length (map last (map (\<lambda>j. rotate (length seq - j) seq) [0..<length seq])) = length (rev seq)"
    by simp
next
  fix i assume "i < length (map last (map (\<lambda>j. rotate (length seq - j) seq) [0..<length seq]))"
  then have i: "i < length seq" by simp
  then have ne: "seq \<noteq> []" by auto
  have "(length seq - i + length seq - 1) mod length seq = length seq - 1 - i"
  proof -
    have "length seq - i + length seq - 1 = (length seq - 1 - i) + length seq"
      using i by simp
    then have "(length seq - i + length seq - 1) mod length seq = (length seq - 1 - i) mod length seq"
      by (simp only: mod_add_self2)
    then show ?thesis using i by simp
  qed
  then show "map last (map (\<lambda>j. rotate (length seq - j) seq) [0..<length seq]) ! i = rev seq ! i"
    using i ne by (simp add: last_rotate rev_nth)
qed

text \<open>
  Claim C8 (permutation invariant). For every input sequence, with no condition on
  sentinels, the transform returns normally a string with the same multiset of symbols
  as the input and of the same length.
\<close>

theorem transform_permutation:
  "\<exists>bwt. transform seq = Inr bwt \<and> mset bwt = mset seq \<and> length bwt = length seq"
proof -
  let ?rows = "map (\<lambda>j. rotate (length seq - j) seq) [0..<length seq]"
  have "mset (map last (sort ?rows)) = image_mset last (mset (sort ?rows))"
    by simp
  also have "\<dots> = mset (map last ?rows)"
    by (simp del: map_map)
  also have "\<dots> = mset seq"
    by (simp only: map_last_rows mset_rev)
  finally show ?thesis
    by (simp add: transform_eq)
qed

section \<open>Decimal strings\<close>

lemma str_nat_nonempty: "str_nat n \<noteq> []"
  by (subst str_nat.simps) simp

lemma digit_char_inj: "a < 10 \<Longrightarrow> b < 10 \<Longrightarrow> digit_char a = digit_char b \<Longrightarrow> a = b"
proof -
  assume a: "a < 10" and b: "b < 10" and eq: "digit_char a = digit_char b"
  from eq have "of_char (char_of (48 + a) :: char) = (of_char (char_of (48 + b) :: char) :: nat)"
    by (simp add: digit_char_def)
  then have "(48 + a) mod 256 = (48 + b) mod 256"
    by (simp only: of_char_of)
  with a b show ?thesis by simp
qed

lemma str_nat_inj: "str_nat m = str_nat n \<Longrightarrow> m = n"
proof (induction m arbitrary: n rule: str_nat.induct)
  case (1 m)
  show ?case
  proof (cases "m < 10")
    case m: True
    show ?thesis
    proof (cases "n < 10")
      case True
      with m "1.prems" show ?thesis
        by (simp add: str_nat.simps [of m] str_nat.simps [of n] digit_char_inj)
    next
      case False
      with m "1.prems" have "[digit_char m] = str_nat (n div 10) @ [digit_char (n mod 10)]"
        by (simp add: str_nat.simps [of m] str_nat.simps [of n])
      then have "str_nat (n div 10) = []" by simp
      then show ?thesis by (simp add: str_nat_nonempty)
    qed
  next
    case m: False
    show ?thesis
    proof (cases "n < 10")
      case True
      with m "1.prems" have "str_nat (m div 10) @ [digit_char (m mod 10)] = [digit_char n]"
        by (simp add: str_nat.simps [of m] str_nat.simps [of n])
      then have "str_nat (m div 10) = []" by simp
      then show ?thesis by (simp add: str_nat_nonempty)
    next
      case False
      with m "1.prems" have "str_nat (m div 10) @ [digit_char (m mod 10)]
          = str_nat (n div 10) @ [digit_char (n mod 10)]"
        by (simp add: str_nat.simps [of m] str_nat.simps [of n])
      then have a: "str_nat (m div 10) = str_nat (n div 10)"
        and b: "digit_char (m mod 10) = digit_char (n mod 10)"
        by simp_all
      from a have "m div 10 = n div 10" using "1.IH" m by simp
      moreover from b have "m mod 10 = n mod 10" by (simp add: digit_char_inj)
      ultimately show ?thesis by (metis div_mult_mod_eq)
    qed
  qed
qed

lemma str_int_nat_inj: "str_int (int m) = str_int (int n) \<Longrightarrow> m = n"
  by (simp add: str_int_def str_nat_inj)

section \<open>Dictionaries\<close>

lemma map_fst_dict_of: "map fst (dict_of ks f) = ks"
  by (simp add: dict_of_def comp_def)

lemma dict_get_dict_of: "k \<in> set ks \<Longrightarrow> dict_get (dict_of ks f) k = Inr (f k)"
proof -
  assume "k \<in> set ks"
  then have "map_of (map (\<lambda>k. (k, f k)) ks) k = Some (f k)"
    by (induction ks) auto
  then show ?thesis by (simp add: dict_get_def dict_of_def)
qed

lemma dict_set_dict_of:
  "distinct ks \<Longrightarrow> k \<in> set ks \<Longrightarrow> dict_set (dict_of ks f) k v = dict_of ks (f(k := v))"
  unfolding dict_of_def
proof (induction ks)
  case Nil
  then show ?case by simp
next
  case (Cons a ks)
  show ?case
  proof (cases "a = k")
    case True
    with Cons.prems have "k \<notin> set ks" by simp
    then have "map (\<lambda>k'. (k', (f(k := v)) k')) ks = map (\<lambda>k'. (k', f k')) ks"
      by (induction ks) auto
    with True show ?thesis by simp
  next
    case False
    with Cons show ?thesis by simp
  qed
qed

lemma dict_of_cong: "(\<And>k. k \<in> set ks \<Longrightarrow> f k = g k) \<Longrightarrow> dict_of ks f = dict_of ks g"
  by (simp add: dict_of_def)

lemma dict_as_dict_of:
  "distinct (map fst d) \<Longrightarrow> d = dict_of (map fst d) (\<lambda>k. the (map_of d k))"
proof (induction d)
  case Nil
  then show ?case by (simp add: dict_of_def)
next
  case (Cons a d)
  obtain k v where a: "a = (k, v)" by (cases a)
  from Cons.prems a have k: "k \<notin> fst ` set d" and dist: "distinct (map fst d)" by simp_all
  have "dict_of (map fst d) (\<lambda>k'. the (map_of ((k, v) # d) k'))
      = dict_of (map fst d) (\<lambda>k'. the (map_of d k'))"
    using k by (intro dict_of_cong) auto
  with Cons.IH [OF dist] a show ?case by (simp add: dict_of_def)
qed

lemma reset_as_dict_of: "map (\<lambda>(k, v). (k, w)) d = dict_of (map fst d) (\<lambda>k. w)"
  by (induction d) (auto simp: dict_of_def)

lemma repor_chaves_dict_of:
  "distinct ks \<Longrightarrow> set cs \<subseteq> set ks \<Longrightarrow>
     repor_chaves cs (dict_of ks f) = dict_of ks (\<lambda>c. if c \<in> set cs then - 1 else f c)"
proof (induction cs arbitrary: f)
  case Nil
  then show ?case by simp
next
  case (Cons c cs)
  then have "repor_chaves (c # cs) (dict_of ks f) = repor_chaves cs (dict_of ks (f(c := - 1)))"
    by (simp add: dict_set_dict_of)
  also have "\<dots> = dict_of ks (\<lambda>c'. if c' \<in> set cs then - 1 else (f(c := - 1)) c')"
    using Cons by simp
  also have "\<dots> = dict_of ks (\<lambda>c'. if c' \<in> set (c # cs) then - 1 else f c')"
    by (intro dict_of_cong) simp
  finally show ?case .
qed

section \<open>Rank tagging\<close>

lemma tags_from_eq:
  "tags_from pre col =
     map (\<lambda>j. col ! j # str_int (int (count_list (pre @ take j col) (col ! j)))) [0..<length col]"
proof (induction col arbitrary: pre)
  case Nil
  then show ?case by simp
next
  case (Cons c cs)
  show ?case
    by (simp only: tags_from.simps Cons.IH length_Cons map_upt_Suc) simp
qed

lemma rank_tags_eq: "rank_tags col = tags_from [] col"
  by (simp add: rank_tags_def tags_from_eq)

lemma obj_update_same:
  "dicionarioOcorrencias self = v \<Longrightarrow> self\<lparr>dicionarioOcorrencias := v\<rparr> = self"
  by (cases self) simp

lemma decidirCaracter_eq:
  assumes "dicionarioOcorrencias self = Some (dict_of ks f)" "distinct ks" "chave \<in> set ks"
  shows "decidirCaracter self item chave lista =
     (if item = chave
      then Inr (self\<lparr>dicionarioOcorrencias := Some (dict_of ks (f(chave := f chave + 1)))\<rparr>,
                lista @ [item # str_int (f chave + 1)])
      else Inr (self, lista))"
  using assms by (simp add: decidirCaracter_def dict_get_dict_of dict_set_dict_of)

lemma preencher_chaves_eq:
  assumes "dicionarioOcorrencias self = Some (dict_of ks f)" "distinct ks"
    "distinct cs" "set cs \<subseteq> set ks"
  shows "preencher_chaves cs self item lista =
     (if item \<in> set cs
      then Inr (self\<lparr>dicionarioOcorrencias := Some (dict_of ks (f(item := f item + 1)))\<rparr>,
                lista @ [item # str_int (f item + 1)])
      else Inr (self, lista))"
  using assms
proof (induction cs arbitrary: self f lista)
  case Nil
  then show ?case by simp
next
  case (Cons c cs)
  from Cons.prems have c: "c \<in> set ks" and cs: "distinct cs" "set cs \<subseteq> set ks" "c \<notin> set cs"
    by simp_all
  show ?case
  proof (cases "item = c")
    case True
    let ?self' = "self\<lparr>dicionarioOcorrencias := Some (dict_of ks (f(c := f c + 1)))\<rparr>"
    have d': "dicionarioOcorrencias ?self' = Some (dict_of ks (f(c := f c + 1)))" by simp
    have "preencher_chaves cs ?self' item (lista @ [item # str_int (f c + 1)])
        = Inr (?self', lista @ [item # str_int (f c + 1)])"
      using Cons.IH [OF d' Cons.prems(2) cs(1) cs(2)] cs(3) True by simp
    with True show ?thesis
      by (simp add: decidirCaracter_eq [OF Cons.prems(1) Cons.prems(2) c])
  next
    case False
    then show ?thesis
      using Cons.IH [OF Cons.prems(1) Cons.prems(2) cs(1) cs(2)]
      by (simp add: decidirCaracter_eq [OF Cons.prems(1) Cons.prems(2) c])
  qed
qed

lemma preencher_itens_eq:
  assumes "dicionarioOcorrencias self = Some (dict_of ks (\<lambda>c. int (count_list pre c) - 1))"
    "distinct ks" "set its \<subseteq> set ks"
  shows "preencher_itens its self lista =
     Inr (self\<lparr>dicionarioOcorrencias := Some (dict_of ks (\<lambda>c. int (count_list (pre @ its) c) - 1))\<rparr>,
          lista @ tags_from pre its)"
  using assms
proof (induction its arbitrary: self pre lista)
  case Nil
  then show ?case by (simp add: obj_update_same)
next
  case (Cons item its)
  let ?f = "\<lambda>c. int (count_list pre c) - 1"
  let ?self' = "self\<lparr>dicionarioOcorrencias := Some (dict_of ks (?f(item := ?f item + 1)))\<rparr>"
  from Cons.prems have item: "item \<in> set ks" and its: "set its \<subseteq> set ks" by simp_all
  have f': "?f(item := ?f item + 1) = (\<lambda>c. int (count_list (pre @ [item]) c) - 1)"
    by (rule ext) simp
  have step: "preencher_chaves ks self item lista
      = Inr (?self', lista @ [item # str_int (int (count_list pre item))])"
    using preencher_chaves_eq [OF Cons.prems(1) Cons.prems(2) Cons.prems(2) subset_refl, of item lista]
      item by simp
  have d': "dicionarioOcorrencias ?self' = Some (dict_of ks (\<lambda>c. int (count_list (pre @ [item]) c) - 1))"
    by (simp only: f') simp
  have "preencher_itens (item # its) self lista
      = preencher_itens its ?self' (lista @ [item # str_int (int (count_list pre item))])"
    using Cons.prems(1) step by (simp add: map_fst_dict_of)
  also have "\<dots> = Inr (?self'\<lparr>dicionarioOcorrencias :=
        Some (dict_of ks (\<lambda>c. int (count_list ((pre @ [item]) @ its) c) - 1))\<rparr>,
      (lista @ [item # str_int (int (count_list pre item))]) @ tags_from (pre @ [item]) its)"
    by (rule Cons.IH [OF d' Cons.prems(2) its])
  finally show ?case by simp
qed

lemma preencher_itens_total:
  assumes "dicionarioOcorrencias self = Some (dict_of ks f)" "distinct ks"
  shows "\<exists>f' lista'. preencher_itens its self lista =
     Inr (self\<lparr>dicionarioOcorrencias := Some (dict_of ks f')\<rparr>, lista')"
  using assms
proof (induction its arbitrary: self f lista)
  case Nil
  then show ?case by (metis obj_update_same preencher_itens.simps(1))
next
  case (Cons item its)
  obtain f1 lista1 where step: "preencher_chaves ks self item lista =
      Inr (self\<lparr>dicionarioOcorrencias := Some (dict_of ks f1)\<rparr>, lista1)"
  proof (cases "item \<in> set ks")
    case True
    then show ?thesis
      using preencher_chaves_eq [OF Cons.prems(1) Cons.prems(2) Cons.prems(2) subset_refl, of item lista]
        that by simp
  next
    case False
    then have "preencher_chaves ks self item lista = Inr (self, lista)"
      using preencher_chaves_eq [OF Cons.prems(1) Cons.prems(2) Cons.prems(2) subset_refl, of item lista]
      by simp
    then show ?thesis using that [of f lista] Cons.prems(1) by (simp add: obj_update_same)
  qed
  let ?self1 = "self\<lparr>dicionarioOcorrencias := Some (dict_of ks f1)\<rparr>"
  have d1: "dicionarioOcorrencias ?self1 = Some (dict_of ks f1)" by simp
  from Cons.IH [OF d1 Cons.prems(2), of lista1] obtain f' lista' where
    "preencher_itens its ?self1 lista1 = Inr (?self1\<lparr>dicionarioOcorrencias := Some (dict_of ks f')\<rparr>, lista')"
    by blast
  with step Cons.prems(1) show ?case by (auto simp: map_fst_dict_of)
qed

lemma preencherLista_reset:
  assumes "dicionarioOcorrencias self = Some d" "distinct (map fst d)"
  shows "\<exists>lista'. preencherLista self col lista =
     Inr (self\<lparr>dicionarioOcorrencias := Some (map (\<lambda>(k, v). (k, - 1)) d)\<rparr>, lista')"
proof -
  let ?ks = "map fst d"
  have d: "dicionarioOcorrencias self = Some (dict_of ?ks (\<lambda>k. the (map_of d k)))"
    using assms dict_as_dict_of by metis
  from preencher_itens_total [OF d assms(2), of col lista] obtain f' lista' where
    r: "preencher_itens col self lista = Inr (self\<lparr>dicionarioOcorrencias := Some (dict_of ?ks f')\<rparr>, lista')"
    by blast
  have "repor_chaves ?ks (dict_of ?ks f') = dict_of ?ks (\<lambda>c. if c \<in> set ?ks then - 1 else f' c)"
    using assms(2) by (simp only: repor_chaves_dict_of subset_refl)
  also have "\<dots> = dict_of ?ks (\<lambda>k. - 1)"
    by (intro dict_of_cong) simp
  finally have "repor_chaves ?ks (dict_of ?ks f') = map (\<lambda>(k, v). (k, - 1)) d"
    by (simp only: reset_as_dict_of)
  with r show ?thesis
    by (simp add: preencherLista_def map_fst_dict_of)
qed

lemma preencherLista_eq:
  assumes "dicionarioOcorrencias self = Some d" "distinct (map fst d)"
    "\<forall>v\<in>snd ` set d. v = - 1" "set col \<subseteq> fst ` set d"
  shows "preencherLista self col lista = Inr (self, lista @ rank_tags col)"
proof -
  let ?ks = "map fst d"
  have "d = dict_of ?ks (\<lambda>k. the (map_of d k))"
    using assms(2) by (rule dict_as_dict_of)
  also have "\<dots> = dict_of ?ks (\<lambda>k. - 1)"
  proof (intro dict_of_cong)
    fix k assume "k \<in> set ?ks"
    then obtain v where "map_of d k = Some v" by (metis map_of_eq_None_iff not_Some_eq set_map)
    moreover from this have "(k, v) \<in> set d" by (rule map_of_SomeD)
    ultimately show "the (map_of d k) = - 1" using assms(3) by force
  qed
  finally have dd: "d = dict_of ?ks (\<lambda>k. - 1)" .
  then have d: "dicionarioOcorrencias self = Some (dict_of ?ks (\<lambda>c. int (count_list [] c) - 1))"
    using assms(1) by simp
  have col: "set col \<subseteq> set ?ks" using assms(4) by simp
  have r: "preencher_itens col self lista =
     Inr (self\<lparr>dicionarioOcorrencias := Some (dict_of ?ks (\<lambda>c. int (count_list ([] @ col) c) - 1))\<rparr>,
          lista @ tags_from [] col)"
    by (rule preencher_itens_eq [OF d assms(2) col])
  have "repor_chaves ?ks (dict_of ?ks (\<lambda>c. int (count_list ([] @ col) c) - 1))
      = dict_of ?ks (\<lambda>c. if c \<in> set ?ks then - 1 else int (count_list ([] @ col) c) - 1)"
    using assms(2) by (simp only: repor_chaves_dict_of subset_refl)
  also have "\<dots> = dict_of ?ks (\<lambda>k. - 1)"
    by (intro dict_of_cong) simp
  finally have "repor_chaves ?ks (dict_of ?ks (\<lambda>c. int (count_list ([] @ col) c) - 1)) = d"
    using dd by simp
  with r assms(1) show ?thesis
    by (simp add: preencherLista_def map_fst_dict_of rank_tags_eq obj_update_same)
qed

lemma count_list_take_mono:
  "i \<le> j \<Longrightarrow> count_list (take i xs) c \<le> count_list (take j xs) c"
proof -
  assume "i \<le> j"
  then have "take j xs = take i xs @ take (j - i) (drop i xs)"
    by (metis le_add_diff_inverse take_add)
  then show ?thesis by simp
qed

lemma count_list_take_Suc:
  "i < length xs \<Longrightarrow>
     count_list (take (Suc i) xs) c = count_list (take i xs) c + (if xs ! i = c then 1 else 0)"
  by (simp add: take_Suc_conv_app_nth)

lemma count_list_take_less:
  assumes "i < j" "j \<le> length xs" "xs ! i = c"
  shows "count_list (take i xs) c < count_list (take j xs) c"
proof -
  have "count_list (take i xs) c < count_list (take (Suc i) xs) c"
    using assms by (simp add: count_list_take_Suc)
  also have "\<dots> \<le> count_list (take j xs) c"
    using assms by (intro count_list_take_mono) simp
  finally show ?thesis .
qed

lemma rank_tags_nth:
  "j < length col \<Longrightarrow>
     rank_tags col ! j = col ! j # str_int (int (count_list (take j col) (col ! j)))"
  by (simp add: rank_tags_def)

lemma length_rank_tags: "length (rank_tags col) = length col"
  by (simp add: rank_tags_def)

lemma rank_tags_inj:
  assumes "i < length col" "j < length col" "rank_tags col ! i = rank_tags col ! j"
  shows "i = j"
proof (rule ccontr)
  assume ne: "i \<noteq> j"
  from assms have c: "col ! i = col ! j"
    and r: "count_list (take i col) (col ! i) = count_list (take j col) (col ! j)"
    by (auto simp: rank_tags_nth dest: str_int_nat_inj)
  from ne consider "i < j" | "j < i" by linarith
  then show False
  proof cases
    case 1
    then show ?thesis using count_list_take_less [of i j col "col ! i"] assms c r by simp
  next
    case 2
    then show ?thesis using count_list_take_less [of j i col "col ! j"] assms c r by simp
  qed
qed

lemma distinct_rank_tags: "distinct (rank_tags col)"
  by (auto simp: distinct_conv_nth length_rank_tags dest: rank_tags_inj)

text \<open>
  Claim C10 (shared counter reset). On an instance whose dictionary \<open>d\<close> has distinct
  keys, every call of \<open>preencherLista\<close> returns normally and leaves every value of the
  dictionary equal to \<open>-1\<close>. When the values are \<open>-1\<close> at the call (as after
  \<open>criarDicionarioOcorrencias\<close> and after every earlier call) and the column is over the
  keys, the call appends the rank tags of the column alone and returns the instance as it
  was, so that a repeated call appends the same tags; the tags are as many as the column
  is long and pairwise distinct.
\<close>

theorem preencherLista_rank_tags:
  assumes "dicionarioOcorrencias self = Some d" "distinct (map fst d)"
  shows "(\<exists>lista'. preencherLista self col lista =
            Inr (self\<lparr>dicionarioOcorrencias := Some (map (\<lambda>(k, v). (k, - 1)) d)\<rparr>, lista'))
         \<and> ((\<forall>v\<in>snd ` set d. v = - 1) \<and> set col \<subseteq> fst ` set d \<longrightarrow>
               preencherLista self col lista = Inr (self, lista @ rank_tags col)
               \<and> (\<forall>j<length col. rank_tags col ! j =
                     col ! j # str_int (int (count_list (take j col) (col ! j)))))
         \<and> length (rank_tags col) = length col \<and> distinct (rank_tags col)"
  using assms
  by (auto simp: preencherLista_reset preencherLista_eq rank_tags_nth length_rank_tags
      distinct_rank_tags)

text \<open>Witness of C10: the driver's dictionary and last column.\<close>

theorem preencherLista_rank_tags_witness:
  "dicionarioOcorrencias (criarDicionarioOcorrencias (BWT_init ''TAGACAGAGA$'') ''AGGGTCAAAA$'')
     = Some [(CHR ''A'', - 1), (CHR ''G'', - 1), (CHR ''T'', - 1), (CHR ''C'', - 1), (CHR ''$'', - 1)]
   \<and> preencherLista (criarDicionarioOcorrencias (BWT_init ''TAGACAGAGA$'') ''AGGGTCAAAA$'')
        ''AGGGTCAAAA$'' []
      = Inr (criarDicionarioOcorrencias (BWT_init ''TAGACAGAGA$'') ''AGGGTCAAAA$'',
             [''A0'', ''G0'', ''G1'', ''G2'', ''T0'', ''C0'', ''A1'', ''A2'', ''A3'', ''A4'', ''$0''])"
proof -
  let ?d = "[(CHR ''A'', - 1), (CHR ''G'', - 1), (CHR ''T'', - 1), (CHR ''C'', - 1), (CHR ''$'', - 1 :: int)]"
  let ?self = "criarDicionarioOcorrencias (BWT_init ''TAGACAGAGA$'') ''AGGGTCAAAA$''"
  have a: "dicionarioOcorrencias ?self = Some ?d"
    by (simp add: criarDicionarioOcorrencias_def)
  have b: "distinct (map fst ?d)" by simp
  have c: "(\<forall>v\<in>snd ` set ?d. v = - 1) \<and> set ''AGGGTCAAAA$'' \<subseteq> fst ` set ?d" by simp
  have t: "rank_tags ''AGGGTCAAAA$''
      = [''A0'', ''G0'', ''G1'', ''G2'', ''T0'', ''C0'', ''A1'', ''A2'', ''A3'', ''A4'', ''$0'']"
    by code_simp
  from preencherLista_rank_tags [OF a b, of "''AGGGTCAAAA$''" "[]"] c
  have "preencherLista ?self ''AGGGTCAAAA$'' [] = Inr (?self, [] @ rank_tags ''AGGGTCAAAA$'')"
    by blast
  with a t show ?thesis by simp
qed

section \<open>Search: empty pattern, attribute rebinding, unknown symbols\<close>

lemma map_err_py_get_all: "map_err (py_get l) (map int [0..<length l]) = Inr l"
proof (induction l rule: rev_induct)
  case Nil
  then show ?case by simp
next
  case (snoc x xs)
  have a: "\<And>f ys z. map_err f (ys @ [z]) =
      (case map_err f ys of Inl e \<Rightarrow> Inl e
       | Inr rs \<Rightarrow> (case f z of Inl e \<Rightarrow> Inl e | Inr r \<Rightarrow> Inr (rs @ [r])))"
    subgoal for f ys z
      by (induction ys) (auto split: sum.splits)
    done
  have b: "map_err (py_get (xs @ [x])) (map int [0..<length xs]) = map_err (py_get xs) (map int [0..<length xs])"
  proof -
    have "\<And>ks. \<forall>k\<in>set ks. k < length xs \<Longrightarrow> map_err (py_get (xs @ [x])) (map int ks) = map_err (py_get xs) (map int ks)"
      subgoal for ks
        by (induction ks) (auto simp: py_get_def nth_append split: sum.splits)
      done
    then show ?thesis by simp
  qed
  show ?case
    using snoc by (simp add: a b) (simp add: py_get_def)
qed

lemma upto_as_upt: "[0..int n - 1] = map int [0..<n]"
proof (induction n)
  case 0
  then show ?case by simp
next
  case (Suc n)
  have "[0..int (Suc n) - 1] = [0..int n]" by simp
  also have "\<dots> = [0..int n - 1] @ [int n]"
    using upto_rec2 [of 0 "int n"] by simp
  finally show ?case using Suc by simp
qed

lemma sort_suffix_array: "sort (sort_key f [0..<n]) = [0..<n]"
  by (rule properties_for_sort) simp_all

lemma transform_length: "transform seq = Inr bwt \<Longrightarrow> length bwt = length seq"
  by (auto simp: transform_eq)

lemma suffix_array_fresh:
  "suffix_array_attr self = SA_Method \<Longrightarrow>
     suffix_array self seq =
       Inr (self\<lparr>suffix_array_attr := SA_List (sort_key (\<lambda>i. drop i seq) [0..<length seq])\<rparr>,
            sort_key (\<lambda>i. drop i seq) [0..<length seq])"
  by (simp add: suffix_array_def Let_def)

lemma suffix_array_rebound:
  "suffix_array_attr self = SA_List l \<Longrightarrow> suffix_array self seq = Inl TypeError"
  by (simp add: suffix_array_def)

text \<open>
  Claim C6 (empty-pattern contract). For every sequence of length \<open>n\<close>, the search
  for the empty pattern, after \<open>suffix_array\<close> of the same sequence, narrows nothing
  (the range stays \<open>0 .. n - 1\<close>) and returns all the offsets \<open>0 .. n - 1\<close> in
  ascending order. It holds whatever the number of sentinels.
\<close>

theorem search_empty_pattern: "search seq [] = Inr [0..<length seq]"
proof -
  obtain bwt where bwt: "transform seq = Inr bwt" and len: "length bwt = length seq"
    by (auto simp: transform_eq)
  let ?sa = "sort_key (\<lambda>i. drop i seq) [0..<length seq]"
  have "fm_loop (count_table bwt) (first_occurrence_table (sort bwt)) (SA_List ?sa) 0
          (int (length bwt) - 1) [] = Inr [0..<length seq]"
  proof (cases "seq = []")
    case True
    then show ?thesis using len by (simp add: fm_loop.simps)
  next
    case False
    then have "0 \<le> int (length bwt) - 1" using len by (cases seq) simp_all
    moreover have "map_err (sa_index (SA_List ?sa)) [0..int (length bwt) - 1] = Inr ?sa"
    proof -
      have "sa_index (SA_List ?sa) = py_get ?sa" by (rule ext) (simp add: sa_index_def)
      moreover have "[0..int (length bwt) - 1] = map int [0..<length ?sa]"
        using len by (simp add: upto_as_upt)
      ultimately show ?thesis by (simp only: map_err_py_get_all)
    qed
    ultimately show ?thesis
      by (simp add: fm_loop.simps sort_suffix_array)
  qed
  then show ?thesis
    by (simp add: search_def suffix_array_fresh BWT_init_def procuraPadraoBWT_def bwt)
qed

lemma fm_loop_method_empty:
  "fm_loop cnt fo SA_Method t b p = Inr r \<Longrightarrow> r = []"
proof (induction cnt fo SA_Method t b p rule: fm_loop.induct)
  case (1 cnt fo t b p)
  show ?case
  proof (cases "t \<le> b")
    case False
    with "1.prems" show ?thesis by (simp add: fm_loop.simps)
  next
    case tb: True
    show ?thesis
    proof (cases "p = []")
      case True
      then obtain k ks where "[t..b] = k # ks" using tb by (metis upto_rec1)
      with "1.prems" tb True show ?thesis
        by (simp add: fm_loop.simps sa_index_def)
    next
      case False
      with "1.prems" tb "1.hyps" show ?thesis
        by (subst (asm) fm_loop.simps) (auto split: sum.splits if_splits)
    qed
  qed
qed

lemma fm_loop_method_TypeError:
  "fm_loop cnt fo (SA_List l) t b p = Inr (x # xs) \<Longrightarrow> fm_loop cnt fo SA_Method t b p = Inl TypeError"
proof (induction cnt fo "SA_List l" t b p rule: fm_loop.induct)
  case (1 cnt fo t b p)
  show ?case
  proof (cases "t \<le> b")
    case False
    with "1.prems" show ?thesis by (simp add: fm_loop.simps)
  next
    case tb: True
    show ?thesis
    proof (cases "p = []")
      case True
      then obtain k ks where "[t..b] = k # ks" using tb by (metis upto_rec1)
      with tb True show ?thesis
        by (simp add: fm_loop.simps sa_index_def)
    next
      case False
      with "1.prems" tb "1.hyps" show ?thesis
        by (subst fm_loop.simps, subst (asm) fm_loop.simps) (auto split: sum.splits if_splits)
    qed
  qed
qed

text \<open>
  Claim C9 (implicit precondition of the search). On an instance whose attribute
  \<open>suffix_array\<close> is still the method: the first call of \<open>suffix_array\<close> returns
  the array and rebinds the attribute to it, after which a second call raises
  \<open>TypeError\<close>; a search on the instance as it is never returns a non-empty list, and
  raises \<open>TypeError\<close> whenever the same search with a list under the attribute returns
  offsets.
\<close>

theorem suffix_array_rebinds_attribute:
  assumes "suffix_array_attr self = SA_Method"
  shows "(\<exists>sa. suffix_array self seq = Inr (self\<lparr>suffix_array_attr := SA_List sa\<rparr>, sa)
            \<and> suffix_array (self\<lparr>suffix_array_attr := SA_List sa\<rparr>) seq' = Inl TypeError)
         \<and> (\<forall>r. procuraPadraoBWT self pattern = Inr r \<longrightarrow> r = [])
         \<and> (procuraPadraoBWT (self\<lparr>suffix_array_attr := SA_List l\<rparr>) pattern = Inr (x # xs)
              \<longrightarrow> procuraPadraoBWT self pattern = Inl TypeError)"
  using assms
  by (auto simp: suffix_array_fresh suffix_array_rebound procuraPadraoBWT_def split: sum.splits
      dest: fm_loop_method_empty fm_loop_method_TypeError)

text \<open>
  Witness of C9: the driver's sequence; pattern \<open>AGA\<close>, whose range survives, and
  pattern \<open>CC\<close>, whose range does not.
\<close>

theorem suffix_array_rebinds_attribute_witness:
  "suffix_array_attr (BWT_init ''TAGACAGAGA$'') = SA_Method
   \<and> suffix_array (BWT_init ''TAGACAGAGA$'') ''TAGACAGAGA$'' =
        Inr (BWT_init ''TAGACAGAGA$''\<lparr>suffix_array_attr := SA_List [10, 9, 3, 7, 1, 5, 4, 8, 2, 6, 0]\<rparr>,
             [10, 9, 3, 7, 1, 5, 4, 8, 2, 6, 0])
   \<and> procuraPadraoBWT (BWT_init ''TAGACAGAGA$''\<lparr>suffix_array_attr := SA_List [10, 9, 3, 7, 1, 5, 4, 8, 2, 6, 0]\<rparr>) ''AGA''
        = Inr (1 # [5, 7])
   \<and> procuraPadraoBWT (BWT_init ''TAGACAGAGA$'') ''AGA'' = Inl TypeError
   \<and> procuraPadraoBWT (BWT_init ''TAGACAGAGA$'') ''CC'' = Inr []"
proof -
  have a: "suffix_array_attr (BWT_init ''TAGACAGAGA$'') = SA_Method"
    by (simp add: BWT_init_def)
  have b: "suffix_array (BWT_init ''TAGACAGAGA$'') ''TAGACAGAGA$'' =
        Inr (BWT_init ''TAGACAGAGA$''\<lparr>suffix_array_attr := SA_List [10, 9, 3, 7, 1, 5, 4, 8, 2, 6, 0]\<rparr>,
             [10, 9, 3, 7, 1, 5, 4, 8, 2, 6, 0])"
    by code_simp
  have c: "procuraPadraoBWT (BWT_init ''TAGACAGAGA$''\<lparr>suffix_array_attr := SA_List [10, 9, 3, 7, 1, 5, 4, 8, 2, 6, 0]\<rparr>) ''AGA''
        = Inr (1 # [5, 7])"
    by code_simp
  from suffix_array_rebinds_attribute [OF a, of "''TAGACAGAGA$''" "''TAGACAGAGA$''" "''AGA''"
      "[10, 9, 3, 7, 1, 5, 4, 8, 2, 6, 0]" 1 "[5, 7]"] c
  have "procuraPadraoBWT (BWT_init ''TAGACAGAGA$'') ''AGA'' = Inl TypeError"
    by blast
  moreover have "procuraPadraoBWT (BWT_init ''TAGACAGAGA$'') ''CC'' = Inr []"
    by code_simp
  ultimately show ?thesis using a b c by blast
qed

text \<open>
  Claim C3 (unknown symbols). The claim is that a pattern with a symbol absent from the
  BWT string gives an empty result. The code looks the symbol up in the count table
  without testing for its presence: over \<open>TAGACAGAGA$\<close> the pattern \<open>XYZ\<close> raises
  \<open>KeyError\<close>.
\<close>

theorem search_unknown_symbol_raises:
  "search ''TAGACAGAGA$'' ''XYZ'' = Inl KeyError"
  by code_simp

text \<open>
  Claim C4 (sentinel validation), as stated: the transform and \<open>suffix_array\<close> reject
  a sequence with no sentinel or with several. They return normally on \<open>AB\<close> and on
  \<open>$A$\<close>.
\<close>

theorem no_sentinel_validation_counterexample:
  "transform ''AB'' = Inr ''BA''
   \<and> map_sum id snd (suffix_array (BWT_init ''AB'') ''AB'') = Inr [0, 1]
   \<and> transform ''$A$'' = Inr ''A$$''
   \<and> map_sum id snd (suffix_array (BWT_init ''$A$'') ''$A$'') = Inr [2, 0, 1]"
  by code_simp

text \<open>
  Claim C4, amended: the code validates nothing. For every sequence, whatever its
  sentinels, \<open>criarMatriz\<close> returns \<open>len(seq)\<close> rows, the transform returns a string
  of the same length, and the first call of \<open>suffix_array\<close> on an instance returns a
  permutation of \<open>0 .. len(seq) - 1\<close>.
\<close>

theorem no_sentinel_validation:
  "(\<exists>matriz. criarMatriz seq = Inr matriz \<and> length matriz = length seq)
   \<and> (\<exists>bwt. transform seq = Inr bwt \<and> length bwt = length seq)
   \<and> (\<exists>sa. suffix_array (BWT_init s) seq = Inr (BWT_init s\<lparr>suffix_array_attr := SA_List sa\<rparr>, sa)
           \<and> mset sa = mset [0..<length seq])"
proof -
  have "\<exists>matriz. criarMatriz seq = Inr matriz \<and> length matriz = length seq"
    by (simp add: criarMatriz_eq)
  moreover have "\<exists>bwt. transform seq = Inr bwt \<and> length bwt = length seq"
    by (simp add: transform_eq)
  moreover have "\<exists>sa. suffix_array (BWT_init s) seq = Inr (BWT_init s\<lparr>suffix_array_attr := SA_List sa\<rparr>, sa)
           \<and> mset sa = mset [0..<length seq]"
    by (simp add: suffix_array_fresh BWT_init_def)
  ultimately show ?thesis by blast
qed

section \<open>The reconstruction pipeline\<close>

lemma dict_set_keys: "fst ` set (dict_set d k v) = insert k (fst ` set d)"
proof (induction d)
  case Nil
  then show ?case by simp
next
  case (Cons a d)
  obtain k' v' where a: "a = (k', v')" by (cases a)
  show ?case
  proof (cases "k' = k")
    case True
    with a show ?thesis by auto
  next
    case False
    with a have "fst ` set (dict_set (a # d) k v) = insert k' (fst ` set (dict_set d k v))"
      by simp
    with Cons a show ?thesis by auto
  qed
qed

lemma dict_set_distinct: "distinct (map fst d) \<Longrightarrow> distinct (map fst (dict_set d k v))"
proof (induction d)
  case Nil
  then show ?case by simp
next
  case (Cons a d)
  obtain k' v' where a: "a = (k', v')" by (cases a)
  show ?case
  proof (cases "k' = k")
    case True
    with a Cons.prems show ?thesis by simp
  next
    case False
    have "set (map fst (dict_set d k v)) = insert k (fst ` set d)"
      by (simp add: dict_set_keys)
    with False a Cons show ?thesis by auto
  qed
qed

lemma dict_set_values: "snd ` set (dict_set d k v) \<subseteq> insert v (snd ` set d)"
proof (induction d)
  case Nil
  then show ?case by simp
next
  case (Cons a d)
  obtain k' v' where a: "a = (k', v')" by (cases a)
  show ?case
  proof (cases "k' = k")
    case True
    with a show ?thesis by auto
  next
    case False
    with a have "snd ` set (dict_set (a # d) k v) = insert v' (snd ` set (dict_set d k v))"
      by simp
    with Cons a show ?thesis by auto
  qed
qed

lemma criarDicionario_loop_props:
  assumes "distinct (map fst d)" "\<forall>v\<in>snd ` set d. v = - 1"
  shows "distinct (map fst (criarDicionario_loop bwt d))
       \<and> (\<forall>v\<in>snd ` set (criarDicionario_loop bwt d). v = - 1)
       \<and> fst ` set (criarDicionario_loop bwt d) = fst ` set d \<union> set bwt"
  using assms
proof (induction bwt arbitrary: d)
  case Nil
  then show ?case by simp
next
  case (Cons c bwt)
  have a: "distinct (map fst (dict_set d c (- 1)))"
    using Cons.prems(1) by (rule dict_set_distinct)
  have b: "\<forall>v\<in>snd ` set (dict_set d c (- 1)). v = - 1"
    using Cons.prems(2) dict_set_values [of d c "- 1"] by auto
  have c: "fst ` set (dict_set d c (- 1)) \<union> set bwt = fst ` set d \<union> set (c # bwt)"
    by (simp add: dict_set_keys)
  from Cons.IH [OF a b] show ?case
    unfolding criarDicionario_loop.simps c by blast
qed

lemma criarUltimaColuna_loop_eq: "criarUltimaColuna_loop bwt lista = lista @ bwt"
  by (induction bwt arbitrary: lista) simp_all

lemma criarUltimaColuna_eq: "criarUltimaColuna bwt = bwt"
  by (simp add: criarUltimaColuna_def criarUltimaColuna_loop_eq)

lemma invert_eq:
  "invert depth sentinel bwt =
     (case obterSequenciaOriginal depth (criarDicionarioOcorrencias (BWT_init []) bwt)
             (sentinel # str_int 0) (int (length bwt)) (rank_tags (sort bwt)) (rank_tags bwt) of
        None \<Rightarrow> None
      | Some (Inl e) \<Rightarrow> Some (Inl e)
      | Some (Inr classe) \<Rightarrow> Some (SequenciaOriginalEmString classe))"
proof -
  let ?self = "criarDicionarioOcorrencias (BWT_init []) bwt"
  let ?d = "criarDicionario_loop bwt []"
  have d: "dicionarioOcorrencias ?self = Some ?d"
    by (simp add: criarDicionarioOcorrencias_def)
  have props: "distinct (map fst ?d)" "\<forall>v\<in>snd ` set ?d. v = - 1" "fst ` set ?d = set bwt"
    using criarDicionario_loop_props [of "[]" bwt] by simp_all
  have 1: "preencherLista ?self (sort bwt) [] = Inr (?self, rank_tags (sort bwt))"
    using preencherLista_eq [OF d props(1) props(2), of "sort bwt" "[]"] props(3) by simp
  have 2: "preencherLista ?self bwt [] = Inr (?self, rank_tags bwt)"
    using preencherLista_eq [OF d props(1) props(2), of bwt "[]"] props(3) by simp
  show ?thesis
    by (simp add: invert_def criarPrimeiraColuna_def criarUltimaColuna_eq 1 2 length_rank_tags)
qed

lemma obter_loop_no_match:
  "letra \<notin> set ultimaColuna \<Longrightarrow> int (length lista) \<noteq> comprimento \<Longrightarrow>
     obter_loop ultimaColuna indice comprimento primeiraColuna letra lista = Inr (False, letra, lista)"
  by (induction ultimaColuna arbitrary: indice) auto

lemma obterSequenciaOriginal_no_match:
  assumes "letra \<notin> set ultimaColuna" "listaSequenciaOriginal self = []"
    "comprimento = int (length ultimaColuna)"
  shows "obterSequenciaOriginal depth self letra comprimento primeiraColuna ultimaColuna = None"
proof (induction depth)
  case 0
  then show ?case by simp
next
  case (Suc depth)
  have "obter_loop ultimaColuna (- 1) comprimento primeiraColuna letra [] = Inr (False, letra, [])"
  proof (cases "ultimaColuna = []")
    case True
    then show ?thesis by simp
  next
    case False
    then have "int (length ([] :: string)) \<noteq> comprimento" using assms(3) by simp
    with assms(1) show ?thesis by (rule obter_loop_no_match)
  qed
  then have "obterSequenciaOriginal (Suc depth) self letra comprimento primeiraColuna ultimaColuna
      = obterSequenciaOriginal depth (self\<lparr>listaSequenciaOriginal := []\<rparr>) letra comprimento
          primeiraColuna ultimaColuna"
    using assms(2) by simp
  moreover have "self\<lparr>listaSequenciaOriginal := []\<rparr> = self"
    using assms(2) by (cases self) simp
  ultimately show ?case using Suc by (simp only:)
qed

lemma hd_rank_tags: "t \<in> set (rank_tags col) \<Longrightarrow> t \<noteq> [] \<and> hd t \<in> set col"
  by (auto simp: rank_tags_def)

text \<open>
  Claim C5 (bounded reconstruction with a typed failure), as stated: on a BWT string with
  zero or two sentinels \<open>invert\<close> raises a reconstruction error. On \<open>$$\<close> it returns
  the string \<open>$$\<close> normally.
\<close>



theorem invert_two_sentinels_counterexample:
  "invert 2 (CHR ''$'') ''$$'' = Some (Inr ''$$'')"
  by code_simp

text \<open>
  Claim C5, amended: the code has no bound and no failure path. On a BWT string without
  the sentinel the walk never finds its tag, every pass ends without \<open>return\<close> and the
  method calls itself again: \<open>invert\<close> returns nothing at any depth of recursion, and
  raises no error of its own.
\<close>

theorem invert_without_sentinel:
  "sentinel \<notin> set bwt \<Longrightarrow> invert depth sentinel bwt = None"
proof -
  assume sen: "sentinel \<notin> set bwt"
  have "sentinel # str_int 0 \<notin> set (rank_tags bwt)"
    using sen hd_rank_tags [of "sentinel # str_int 0" bwt] by auto
  moreover have "listaSequenciaOriginal (criarDicionarioOcorrencias (BWT_init []) bwt) = []"
    by (simp add: criarDicionarioOcorrencias_def BWT_init_def)
  moreover have "int (length bwt) = int (length (rank_tags bwt))"
    by (simp add: length_rank_tags)
  ultimately have "obterSequenciaOriginal depth (criarDicionarioOcorrencias (BWT_init []) bwt)
      (sentinel # str_int 0) (int (length bwt)) (rank_tags (sort bwt)) (rank_tags bwt) = None"
    by (rule obterSequenciaOriginal_no_match)
  then show ?thesis by (simp add: invert_eq)
qed



text \<open>Witness of C5: the string \<open>AB\<close>, fifty levels of recursion.\<close>

theorem invert_without_sentinel_witness:
  "CHR ''$'' \<notin> set ''AB'' \<and> invert 50 (CHR ''$'') ''AB'' = None"
  using invert_without_sentinel [of "CHR ''$''" "''AB''" 50] by simp

section \<open>Lexicographic order\<close>

lemma append_less_same_length:
  fixes x y :: "'a::linorder list"
  shows "length x = length y \<Longrightarrow> x \<noteq> y \<Longrightarrow> (x @ u < y @ v) = (x < y)"
  by (induction x y rule: list_induct2) auto

lemma snoc_less_iff:
  fixes a b :: "'a::linorder list"
  shows "length a = length b \<Longrightarrow> (a @ [c] < b @ [c]) = (a < b)"
  by (induction a b rule: list_induct2) auto

section \<open>Suffixes and rotations of a terminated sequence\<close>

lemma terminated_nth:
  assumes "terminated sen seq" "i < length seq"
  shows "seq ! i = sen \<longleftrightarrow> i = length seq - 1"
proof
  assume eq: "seq ! i = sen"
  show "i = length seq - 1"
  proof (rule ccontr)
    assume "i \<noteq> length seq - 1"
    with assms(2) have "i < length (butlast seq)" by simp
    then have "butlast seq ! i \<in> set (butlast seq)" by (rule nth_mem)
    moreover have "butlast seq ! i = seq ! i"
      using \<open>i < length (butlast seq)\<close> by (simp add: nth_butlast)
    ultimately show False using assms(1) eq by (auto simp: terminated_def)
  qed
next
  assume "i = length seq - 1"
  moreover have "last seq = seq ! (length seq - 1)"
    using assms(1) by (intro last_conv_nth) (simp add: terminated_def)
  ultimately show "seq ! i = sen" using assms(1) by (simp add: terminated_def)
qed

lemma suffix_prefix_differs:
  assumes t: "terminated sen seq" and ij: "i < j" "j < length seq"
  shows "take (length seq - j) (drop i seq) \<noteq> drop j seq"
proof
  let ?n = "length seq" and ?m = "length seq - j"
  assume eq: "take ?m (drop i seq) = drop j seq"
  have m: "0 < ?m" using ij by simp
  have "take ?m (drop i seq) ! (?m - 1) = seq ! (i + (?m - 1))"
    using ij m by simp
  moreover have "drop j seq ! (?m - 1) = seq ! (j + (?m - 1))"
    using ij m by simp
  ultimately have "seq ! (i + (?m - 1)) = seq ! (?n - 1)"
    using eq ij by simp
  moreover have "seq ! (?n - 1) = sen"
    using t terminated_nth [OF t, of "?n - 1"] ij by simp
  ultimately have "i + (?m - 1) = ?n - 1"
    using terminated_nth [OF t, of "i + (?m - 1)"] ij by simp
  with ij show False by simp
qed

lemma suffix_rotation_order_aux:
  assumes t: "terminated sen seq" and ij: "i < j" "j < length seq"
  shows "(drop i seq < drop j seq) = (rotate i seq < rotate j seq)"
    and "(drop j seq < drop i seq) = (rotate j seq < rotate i seq)"
proof -
  let ?m = "length seq - j"
  let ?a = "take ?m (drop i seq)" and ?b = "drop j seq"
  have len: "length ?a = length ?b" using ij by simp
  have ne: "?a \<noteq> ?b" using t ij by (rule suffix_prefix_differs)
  have "rotate i seq = drop i seq @ take i seq"
    using ij by (simp add: rotate_drop_take)
  also have "\<dots> = (?a @ drop ?m (drop i seq)) @ take i seq"
    by (simp only: append_take_drop_id)
  finally have ri: "rotate i seq = ?a @ (drop ?m (drop i seq) @ take i seq)"
    by (simp only: append_assoc)
  have rj: "rotate j seq = ?b @ take j seq"
    using ij by (simp add: rotate_drop_take)
  have "(drop i seq < drop j seq) = (?a @ drop ?m (drop i seq) < ?b @ [])"
    by (simp only: append_take_drop_id append_Nil2)
  also have "\<dots> = (?a < ?b)" using len ne by (rule append_less_same_length)
  also have "\<dots> = (?a @ (drop ?m (drop i seq) @ take i seq) < ?b @ take j seq)"
    using len ne by (rule append_less_same_length [symmetric])
  finally show "(drop i seq < drop j seq) = (rotate i seq < rotate j seq)"
    by (simp only: ri rj)
  have "(drop j seq < drop i seq) = (?b @ [] < ?a @ drop ?m (drop i seq))"
    by (simp only: append_take_drop_id append_Nil2)
  also have "\<dots> = (?b < ?a)" using len ne by (intro append_less_same_length) simp_all
  also have "\<dots> = (?b @ take j seq < ?a @ (drop ?m (drop i seq) @ take i seq))"
    using len ne by (intro append_less_same_length [symmetric]) simp_all
  finally show "(drop j seq < drop i seq) = (rotate j seq < rotate i seq)"
    by (simp only: ri rj)
qed

lemma suffix_rotation_order:
  assumes "terminated sen seq" "i < length seq" "j < length seq"
  shows "(drop i seq < drop j seq) = (rotate i seq < rotate j seq)"
proof -
  consider "i < j" | "j < i" | "i = j" by linarith
  then show ?thesis
  proof cases
    case 1
    then show ?thesis using suffix_rotation_order_aux(1) assms by blast
  next
    case 2
    then show ?thesis using suffix_rotation_order_aux(2) assms by blast
  next
    case 3
    then show ?thesis by simp
  qed
qed

lemma rotation_inj:
  assumes "terminated sen seq" "i < length seq" "j < length seq" "rotate i seq = rotate j seq"
  shows "i = j"
proof -
  have "drop i seq = drop j seq"
    using suffix_rotation_order [OF assms(1-3)] suffix_rotation_order [OF assms(1) assms(3) assms(2)]
      assms(4) by (metis less_irrefl linorder_less_linear)
  then have "length (drop i seq) = length (drop j seq)" by simp
  with assms(2,3) show ?thesis by simp
qed

lemma distinct_rotations: "terminated sen seq \<Longrightarrow> distinct (rotations seq)"
  by (auto simp: rotations_def distinct_map inj_on_def dest: rotation_inj)

section \<open>The sorted rotation matrix and the suffix array\<close>

lemma rev_rows: "map (\<lambda>j. f (n - j)) [0..<n] = rev (map f [1..<Suc n])"
proof (rule nth_equalityI)
  show "length (map (\<lambda>j. f (n - j)) [0..<n]) = length (rev (map f [1..<Suc n]))" by simp
next
  fix k assume "k < length (map (\<lambda>j. f (n - j)) [0..<n])"
  then have k: "k < n" by simp
  have "rev (map f [1..<Suc n]) ! k = map f [1..<Suc n] ! (length (map f [1..<Suc n]) - Suc k)"
    using k by (intro rev_nth) (simp del: upt_Suc)
  also have "\<dots> = map f [1..<Suc n] ! (n - Suc k)"
    by (simp del: upt_Suc)
  also have "\<dots> = f (1 + (n - Suc k))" using k by (simp del: upt_Suc)
  also have "1 + (n - Suc k) = n - k" using k by simp
  finally show "map (\<lambda>j. f (n - j)) [0..<n] ! k = rev (map f [1..<Suc n]) ! k"
    using k by simp
qed

lemma mset_criarMatriz_rows:
  "mset (map (\<lambda>j. rotate (length seq - j) seq) [0..<length seq]) = mset (rotations seq)"
proof (cases "seq = []")
  case True
  then show ?thesis by (simp add: rotations_def)
next
  case False
  let ?n = "length seq" and ?f = "\<lambda>i. rotate i seq"
  from False have n: "0 < ?n" by simp
  have "map (\<lambda>j. rotate (?n - j) seq) [0..<?n] = rev (map ?f [1..<Suc ?n])"
    by (rule rev_rows)
  then have "mset (map (\<lambda>j. rotate (?n - j) seq) [0..<?n]) = mset (map ?f [1..<Suc ?n])"
    by (simp only: mset_rev)
  also have "\<dots> = mset (map ?f [1..<?n]) + {#?f ?n#}"
    using n by (simp add: Suc_leI)
  also have "\<dots> = mset (map ?f [1..<?n]) + {#?f 0#}"
    by simp
  also have "\<dots> = mset (map ?f (0 # [1..<?n]))"
    by simp
  also have "0 # [1..<?n] = [0..<?n]"
    using n by (simp add: upt_rec)
  finally show ?thesis by (simp add: rotations_def)
qed

lemma ordenarMatriz_criarMatriz:
  "criarMatriz seq = Inr matriz \<Longrightarrow> ordenarMatriz matriz = sorted_rotations seq"
proof -
  assume "criarMatriz seq = Inr matriz"
  then have "matriz = map (\<lambda>j. rotate (length seq - j) seq) [0..<length seq]"
    by (simp add: criarMatriz_eq)
  then have "mset matriz = mset (rotations seq)"
    by (simp only: mset_criarMatriz_rows)
  then have "sort matriz = sort (rotations seq)"
    by (metis properties_for_sort sorted_sort mset_sort)
  then show ?thesis by (simp add: ordenarMatriz_def sorted_rotations_def)
qed

lemma transform_sorted_rotations: "transform seq = Inr (map last (sorted_rotations seq))"
proof -
  have "sort (map (\<lambda>j. rotate (length seq - j) seq) [0..<length seq]) = sorted_rotations seq"
    using ordenarMatriz_criarMatriz [OF criarMatriz_eq] by (simp add: ordenarMatriz_def)
  then show ?thesis by (simp only: transform_eq)
qed

lemma sorted_map_transfer:
  fixes f :: "'a \<Rightarrow> 'b::linorder" and g :: "'a \<Rightarrow> 'c::linorder"
  assumes "sorted (map f xs)" "\<And>x y. x \<in> set xs \<Longrightarrow> y \<in> set xs \<Longrightarrow> f x \<le> f y \<Longrightarrow> g x \<le> g y"
  shows "sorted (map g xs)"
  using assms by (induction xs) auto

lemma sorted_rotations_suffix_array:
  assumes "terminated sen seq"
  shows "sorted_rotations seq
       = map (\<lambda>i. rotate i seq) (sort_key (\<lambda>i. drop i seq) [0..<length seq])"
proof -
  let ?sa = "sort_key (\<lambda>i. drop i seq) [0..<length seq]"
  have set_sa: "set ?sa = {0..<length seq}" by simp
  have "sorted (map (\<lambda>i. drop i seq) ?sa)" by (rule sorted_sort_key)
  then have "sorted (map (\<lambda>i. rotate i seq) ?sa)"
  proof (rule sorted_map_transfer)
    fix i j assume "i \<in> set ?sa" "j \<in> set ?sa" and le: "drop i seq \<le> drop j seq"
    then have ij: "i < length seq" "j < length seq" by simp_all
    show "rotate i seq \<le> rotate j seq"
    proof (cases "drop i seq = drop j seq")
      case True
      then have "length (drop i seq) = length (drop j seq)" by simp
      with ij have "i = j" by simp
      then show ?thesis by simp
    next
      case False
      with le have "drop i seq < drop j seq" by simp
      then have "rotate i seq < rotate j seq"
        using suffix_rotation_order [OF assms ij] by simp
      then show ?thesis by simp
    qed
  qed
  moreover have "mset (map (\<lambda>i. rotate i seq) ?sa) = mset (rotations seq)"
    by (simp add: rotations_def)
  ultimately have "sort (rotations seq) = map (\<lambda>i. rotate i seq) ?sa"
    by (intro properties_for_sort)
  then show ?thesis by (simp only: sorted_rotations_def)
qed

section \<open>Linkage of the BWT string and the suffix array\<close>

lemma int_index_mod:
  assumes "0 < n"
  shows "nat ((int a - 1 + int n) mod int n) = (a + n - 1) mod n"
proof -
  have "int a - 1 + int n = int (a + n - 1)" using assms by (simp add: of_nat_diff)
  then have "(int a - 1 + int n) mod int n = int ((a + n - 1) mod n)"
    by (simp only: zmod_int)
  then show ?thesis by simp
qed

text \<open>
  Claim C7 (BWT/SA linkage), as stated: for every sequence carrying a unique minimal
  sentinel. In \<open>C$ABA\<close> the sentinel is unique and minimal but not last: the rotations
  starting at \<open>A\<close> (index 4) and at \<open>ABA\<close> (index 2) sort in the other order than the
  suffixes, and the linkage fails at \<open>i = 1\<close>.
\<close>

theorem bwt_suffix_array_linkage_counterexample:
  "transform ''C$ABA'' = Inr ''C$BAA''
   \<and> map_sum id snd (suffix_array (BWT_init ''C$ABA'') ''C$ABA'') = Inr [1, 4, 2, 3, 0]
   \<and> ''C$BAA'' ! 1 \<noteq> ''C$ABA'' ! nat ((int ([1, 4, 2, 3, 0] ! 1) - 1 + 5) mod 5)"
  by code_simp

text \<open>
  Claim C7, amended: for every sequence terminated by its sentinel (the sentinel is the
  last symbol and every other symbol is greater), the BWT string built from the sorted
  rotations and the suffix array built by sorting the suffix start indices satisfy
  \<open>bwt[i] == sequence[(SA[i] - 1 + n) mod n]\<close> for every \<open>i\<close> in \<open>[0, n)\<close>.
\<close>

theorem bwt_suffix_array_linkage:
  assumes "terminated sen seq"
  shows "\<exists>bwt sa. transform seq = Inr bwt
           \<and> suffix_array (BWT_init s) seq = Inr (BWT_init s\<lparr>suffix_array_attr := SA_List sa\<rparr>, sa)
           \<and> length bwt = length seq \<and> length sa = length seq
           \<and> (\<forall>i<length seq.
                 bwt ! i = seq ! nat ((int (sa ! i) - 1 + int (length seq)) mod int (length seq)))"
proof -
  let ?sa = "sort_key (\<lambda>i. drop i seq) [0..<length seq]"
  let ?bwt = "map last (sorted_rotations seq)"
  have ne: "seq \<noteq> []" using assms by (simp add: terminated_def)
  have rows: "sorted_rotations seq = map (\<lambda>i. rotate i seq) ?sa"
    using assms by (rule sorted_rotations_suffix_array)
  have "?bwt ! i = seq ! nat ((int (?sa ! i) - 1 + int (length seq)) mod int (length seq))"
    if i: "i < length seq" for i
  proof -
    have "?bwt ! i = last (rotate (?sa ! i) seq)" using i by (simp add: rows)
    also have "\<dots> = seq ! ((?sa ! i + length seq - 1) mod length seq)"
      using ne by (rule last_rotate)
    also have "(?sa ! i + length seq - 1) mod length seq
        = nat ((int (?sa ! i) - 1 + int (length seq)) mod int (length seq))"
      using ne by (intro int_index_mod [symmetric]) simp
    finally show ?thesis .
  qed
  moreover have "suffix_array (BWT_init s) seq = Inr (BWT_init s\<lparr>suffix_array_attr := SA_List ?sa\<rparr>, ?sa)"
    by (simp add: suffix_array_fresh BWT_init_def)
  moreover have "length ?bwt = length seq" by (simp add: rows)
  ultimately show ?thesis
    using transform_sorted_rotations [of seq] by (intro exI [of _ ?bwt] exI [of _ ?sa]) simp
qed

text \<open>Witness of C7: the driver's sequence, at \<open>i = 3\<close>.\<close>

theorem bwt_suffix_array_linkage_witness:
  "terminated (CHR ''$'') ''TAGACAGAGA$''
   \<and> transform ''TAGACAGAGA$'' = Inr ''AGGGTCAAAA$''
   \<and> map_sum id snd (suffix_array (BWT_init []) ''TAGACAGAGA$'') = Inr [10, 9, 3, 7, 1, 5, 4, 8, 2, 6, 0]
   \<and> ''AGGGTCAAAA$'' ! 3 = ''TAGACAGAGA$'' ! nat ((int ([10, 9, 3, 7, 1, 5, 4, 8, 2, 6, 0] ! 3) - 1 + 11) mod 11)"
proof -
  have t: "terminated (CHR ''$'') ''TAGACAGAGA$''" by (simp add: terminated_def)
  have b: "transform ''TAGACAGAGA$'' = Inr ''AGGGTCAAAA$''" by code_simp
  have a: "suffix_array (BWT_init []) ''TAGACAGAGA$'' =
      Inr (BWT_init []\<lparr>suffix_array_attr := SA_List [10, 9, 3, 7, 1, 5, 4, 8, 2, 6, 0]\<rparr>,
           [10, 9, 3, 7, 1, 5, 4, 8, 2, 6, 0])"
    by code_simp
  from bwt_suffix_array_linkage [OF t, of "[]"] b a
  have "\<forall>i<length ''TAGACAGAGA$''. ''AGGGTCAAAA$'' ! i = ''TAGACAGAGA$'' !
      nat ((int ([10, 9, 3, 7, 1, 5, 4, 8, 2, 6, 0] ! i) - 1 + int (length ''TAGACAGAGA$''))
        mod int (length ''TAGACAGAGA$''))"
    by auto
  then have "''AGGGTCAAAA$'' ! 3 = ''TAGACAGAGA$'' !
      nat ((int ([10, 9, 3, 7, 1, 5, 4, 8, 2, 6, 0] ! 3) - 1 + int (length ''TAGACAGAGA$''))
        mod int (length ''TAGACAGAGA$''))"
    by simp
  with t b a show ?thesis by simp
qed

section \<open>Rows of the sorted rotation matrix\<close>

lemma sorted_rotations_props:
  assumes "terminated sen seq"
  shows "length (sorted_rotations seq) = length seq"
    and "sorted (sorted_rotations seq)"
    and "distinct (sorted_rotations seq)"
    and "set (sorted_rotations seq) = (\<lambda>i. rotate i seq) ` {0..<length seq}"
  using distinct_rotations [OF assms]
  by (simp_all add: sorted_rotations_def rotations_def)

lemma rotr_rotate:
  assumes "seq \<noteq> []" "i < length seq"
  shows "rotr (rotate i seq) = rotate ((i + length seq - 1) mod length seq) seq"
proof (cases i)
  case 0
  have "rotate (length seq - 1) seq = rotate ((length seq - 1) mod length seq) seq"
    by (rule rotate_conv_mod)
  moreover have "rotr seq = rotate (length seq - 1) seq"
  proof -
    have "rotate1 (rotate (length seq - 1) seq) = rotate (Suc (length seq - 1)) seq" by simp
    also have "\<dots> = seq" using assms by simp
    finally show ?thesis by (metis rotr_rotate1)
  qed
  ultimately show ?thesis using 0 assms by simp
next
  case (Suc j)
  then have "rotr (rotate i seq) = rotate j seq" by (simp add: rotr_rotate1)
  moreover have "(i + length seq - 1) mod length seq = j"
  proof -
    have "i + length seq - 1 = j + length seq" using Suc by simp
    then have "(i + length seq - 1) mod length seq = j mod length seq"
      by (simp only: mod_add_self2)
    then show ?thesis using Suc assms by simp
  qed
  ultimately show ?thesis by simp
qed

lemma sorted_rotations_rows:
  assumes "terminated sen seq" "r \<in> set (sorted_rotations seq)"
  shows "length r = length seq" "r \<noteq> []"
    "rotate1 r \<in> set (sorted_rotations seq)" "rotr r \<in> set (sorted_rotations seq)"
proof -
  have ne: "seq \<noteq> []" using assms(1) by (simp add: terminated_def)
  from assms obtain i where i: "i < length seq" "r = rotate i seq"
    by (auto simp: sorted_rotations_props(4))
  show "length r = length seq" using i by simp
  then show "r \<noteq> []" using ne by auto
  have "rotate1 r = rotate (Suc i mod length seq) seq"
    using i rotate_conv_mod [of "Suc i" seq] by simp
  moreover have "Suc i mod length seq < length seq" using ne by simp
  ultimately show "rotate1 r \<in> set (sorted_rotations seq)"
    unfolding sorted_rotations_props(4) [OF assms(1)] by (metis atLeastLessThan_iff image_eqI zero_le)
  have "rotr r = rotate ((i + length seq - 1) mod length seq) seq"
    using i rotr_rotate [OF ne] by simp
  moreover have "(i + length seq - 1) mod length seq < length seq" using ne by simp
  ultimately show "rotr r \<in> set (sorted_rotations seq)"
    unfolding sorted_rotations_props(4) [OF assms(1)] by (metis atLeastLessThan_iff image_eqI zero_le)
qed

lemma filter_nth_pos:
  assumes "i < length xs" "P (xs ! i)"
  shows "length (filter P (take i xs)) < length (filter P xs)"
    and "filter P xs ! length (filter P (take i xs)) = xs ! i"
proof -
  have "xs = take i xs @ xs ! i # drop (Suc i) xs"
    using assms(1) by (rule id_take_nth_drop)
  then have "filter P xs = filter P (take i xs) @ xs ! i # filter P (drop (Suc i) xs)"
    using assms(2) by (metis filter.simps(2) filter_append)
  then show "length (filter P (take i xs)) < length (filter P xs)"
    and "filter P xs ! length (filter P (take i xs)) = xs ! i"
    by simp_all
qed

lemma sorted_three_way:
  fixes f :: "'a \<Rightarrow> 'b::linorder"
  shows "sorted (map f xs) \<Longrightarrow>
     filter (\<lambda>x. f x < c) xs @ filter (\<lambda>x. f x = c) xs @ filter (\<lambda>x. c < f x) xs = xs"
proof (induction xs)
  case Nil
  then show ?case by simp
next
  case (Cons x xs)
  then have le: "\<forall>y\<in>set xs. f x \<le> f y"
    and IH: "filter (\<lambda>x. f x < c) xs @ filter (\<lambda>x. f x = c) xs @ filter (\<lambda>x. c < f x) xs = xs"
    by simp_all
  consider "f x < c" | "f x = c" | "c < f x" by (rule linorder_cases)
  then show ?case
  proof cases
    case 1
    then have "f x \<noteq> c" "\<not> c < f x" by auto
    with 1 IH show ?thesis by simp
  next
    case 2
    then have "filter (\<lambda>x. f x < c) xs = []" using le by (auto simp: filter_empty_conv)
    with 2 IH show ?thesis by simp
  next
    case 3
    then have "filter (\<lambda>x. f x < c) xs = []" "filter (\<lambda>x. f x = c) xs = []"
      using le by (auto simp: filter_empty_conv)
    moreover from 3 have "\<not> f x < c" "f x \<noteq> c" by auto
    ultimately show ?thesis using 3 IH by simp
  qed
qed

lemma sorted_block_nth:
  fixes f :: "'a \<Rightarrow> 'b::linorder"
  assumes "sorted (map f xs)" "p < length (filter (\<lambda>x. f x = c) xs)"
  shows "length (filter (\<lambda>x. f x < c) xs) + p < length xs"
    and "xs ! (length (filter (\<lambda>x. f x < c) xs) + p) = filter (\<lambda>x. f x = c) xs ! p"
proof -
  let ?A = "filter (\<lambda>x. f x < c) xs" and ?B = "filter (\<lambda>x. f x = c) xs"
    and ?C = "filter (\<lambda>x. c < f x) xs"
  have xs: "?A @ ?B @ ?C = xs" using assms(1) by (rule sorted_three_way)
  then have "length xs = length ?A + length ?B + length ?C"
    by (metis length_append add.assoc)
  then show "length ?A + p < length xs" using assms(2) by simp
  have "(?A @ ?B @ ?C) ! (length ?A + p) = ?B ! p"
    using assms(2) by (simp add: nth_append)
  then show "xs ! (length ?A + p) = ?B ! p" using xs by simp
qed

lemma sorted_map_hd:
  fixes M :: "'a::linorder list list"
  shows "sorted M \<Longrightarrow> \<forall>r\<in>set M. r \<noteq> [] \<Longrightarrow> sorted (map hd M)"
proof (induction M)
  case Nil
  then show ?case by simp
next
  case (Cons r M)
  have "hd r \<le> hd r'" if "r' \<in> set M" for r'
  proof -
    from that Cons.prems have "r \<le> r'" "r \<noteq> []" "r' \<noteq> []" by auto
    then show ?thesis by (cases r; cases r') auto
  qed
  with Cons show ?case by simp
qed

lemma rotr_mono_same_last:
  fixes x y :: "'a::linorder list"
  assumes "length x = length y" "x \<noteq> []" "last x = last y" "x \<le> y"
  shows "rotr x \<le> rotr y"
proof -
  from assms have y: "y \<noteq> []" by auto
  have x': "butlast x @ [last x] = x" using assms(2) by simp
  have "butlast y @ [last y] = y" using y by simp
  then have y': "butlast y @ [last x] = y" by (simp only: assms(3))
  have len: "length (butlast x) = length (butlast y)" using assms(1) by simp
  show ?thesis
  proof (cases "x = y")
    case True
    then show ?thesis by simp
  next
    case False
    with assms(4) have "x < y" by simp
    then have "butlast x @ [last x] < butlast y @ [last x]"
      by (simp only: x' y')
    then have "butlast x < butlast y"
      using len by (simp only: snoc_less_iff)
    then have "last x # butlast x < last x # butlast y" by simp
    then show ?thesis using assms(2,3) y by (simp add: rotr_def)
  qed
qed

lemma rotr_inj: "rotr x = rotr y \<Longrightarrow> x = y"
  by (metis rotate1_rotr)

lemma hd_rotr: "x \<noteq> [] \<Longrightarrow> hd (rotr x) = last x"
  by (simp add: rotr_def)

lemma last_rotate1: "x \<noteq> [] \<Longrightarrow> last (rotate1 x) = hd x"
  by (cases x) simp_all

lemma rotr_last_rows:
  assumes "terminated sen seq"
  shows "map rotr (filter (\<lambda>r. last r = c) (sorted_rotations seq))
       = filter (\<lambda>r. hd r = c) (sorted_rotations seq)"
proof (rule sorted_distinct_set_unique)
  let ?M = "sorted_rotations seq"
  let ?Lc = "filter (\<lambda>r. last r = c) ?M"
  note props = sorted_rotations_props [OF assms]
  note rows = sorted_rotations_rows [OF assms]
  have "sorted ?Lc" using props(2) by (rule sorted_wrt_filter)
  then have "sorted (map (\<lambda>r. r) ?Lc)" by simp
  then show "sorted (map rotr ?Lc)"
  proof (rule sorted_map_transfer)
    fix x y assume "x \<in> set ?Lc" "y \<in> set ?Lc" "x \<le> y"
    then show "rotr x \<le> rotr y"
      using rows(1,2) by (intro rotr_mono_same_last) auto
  qed
  show "distinct (map rotr ?Lc)"
    using props(3) by (auto simp: distinct_map inj_on_def dest: rotr_inj)
  show "sorted (filter (\<lambda>r. hd r = c) ?M)" using props(2) by (rule sorted_wrt_filter)
  show "distinct (filter (\<lambda>r. hd r = c) ?M)" using props(3) by simp
  show "set (map rotr ?Lc) = set (filter (\<lambda>r. hd r = c) ?M)"
  proof (intro set_eqI iffI)
    fix r assume "r \<in> set (map rotr ?Lc)"
    then obtain x where "x \<in> set ?M" "last x = c" "r = rotr x" by auto
    then show "r \<in> set (filter (\<lambda>r. hd r = c) ?M)"
      using rows(2,4) by (simp add: hd_rotr)
  next
    fix r assume "r \<in> set (filter (\<lambda>r. hd r = c) ?M)"
    then have r: "r \<in> set ?M" "hd r = c" by simp_all
    then have "rotate1 r \<in> set ?M" "last (rotate1 r) = c" "rotr (rotate1 r) = r"
      using rows(2,3) by (simp_all add: last_rotate1 rotr_rotate1)
    then show "r \<in> set (map rotr ?Lc)" by force
  qed
qed

section \<open>The last-to-first mapping\<close>

lemma count_list_map_filter: "count_list (map f xs) c = length (filter (\<lambda>x. f x = c) xs)"
  by (induction xs) simp_all

lemma length_filter_mset: "mset xs = mset ys \<Longrightarrow> length (filter P xs) = length (filter P ys)"
  by (metis mset_filter size_mset)

lemma less_count_mset: "mset xs = mset ys \<Longrightarrow> less_count xs c = less_count ys c"
  unfolding less_count_def by (rule length_filter_mset)

lemma map_hd_rotations: "map hd (rotations seq) = seq"
proof (rule nth_equalityI)
  show "length (map hd (rotations seq)) = length seq" by (simp add: rotations_def)
next
  fix i assume "i < length (map hd (rotations seq))"
  then have i: "i < length seq" by (simp add: rotations_def)
  then have "seq \<noteq> []" by auto
  then show "map hd (rotations seq) ! i = seq ! i"
    using i by (simp add: rotations_def hd_rotate_conv_nth)
qed

lemma mset_first_column: "mset (map hd (sorted_rotations seq)) = mset seq"
proof -
  have "mset (map hd (sorted_rotations seq)) = image_mset hd (mset (sorted_rotations seq))"
    by simp
  also have "\<dots> = mset (map hd (rotations seq))"
    by (simp add: sorted_rotations_def)
  finally show ?thesis by (simp only: map_hd_rotations)
qed

lemma mset_last_column:
  fixes seq :: string
  shows "mset (map last (sorted_rotations seq)) = mset seq"
proof -
  let ?rows = "map (\<lambda>j. rotate (length seq - j) seq) [0..<length seq]"
  have "map last (sorted_rotations seq) = map last (sort ?rows)"
    using transform_eq [of seq] transform_sorted_rotations [of seq] by simp
  moreover have "mset (map last (sort ?rows)) = image_mset last (mset (sort ?rows))"
    by simp
  moreover have "image_mset last (mset (sort ?rows)) = mset (map last ?rows)"
    by (simp del: map_map)
  ultimately show ?thesis by (simp only: map_last_rows mset_rev)
qed

lemma first_column_sorted:
  fixes seq :: string
  assumes "terminated sen seq"
  shows "map hd (sorted_rotations seq) = sort (map last (sorted_rotations seq))"
proof (rule properties_for_sort [symmetric])
  show "mset (map hd (sorted_rotations seq)) = mset (map last (sorted_rotations seq))"
    by (simp only: mset_first_column mset_last_column)
  show "sorted (map hd (sorted_rotations seq))"
    using sorted_rotations_props(2) [OF assms] sorted_rotations_rows(2) [OF assms]
    by (intro sorted_map_hd) auto
qed

lemma LF_row:
  fixes seq :: string
  assumes t: "terminated sen seq" and k: "k < length seq"
  shows "LF (map last (sorted_rotations seq)) k < length seq"
    and "sorted_rotations seq ! LF (map last (sorted_rotations seq)) k
           = rotr (sorted_rotations seq ! k)"
proof -
  let ?M = "sorted_rotations seq"
  let ?L = "map last ?M"
  let ?c = "last (?M ! k)"
  let ?p = "length (filter (\<lambda>r. last r = ?c) (take k ?M))"
  let ?Lc = "filter (\<lambda>r. last r = ?c) ?M" and ?Fc = "filter (\<lambda>r. hd r = ?c) ?M"
  note props = sorted_rotations_props [OF t]
  have kM: "k < length ?M" using k props(1) by simp
  have c: "?L ! k = ?c" using kM by simp
  have p: "occ ?L ?c k = ?p"
    by (simp add: occ_def take_map count_list_map_filter)
  have fo: "less_count ?L ?c = length (filter (\<lambda>r. hd r < ?c) ?M)"
  proof -
    have "less_count ?L ?c = less_count (map hd ?M) ?c"
      by (intro less_count_mset) (simp only: mset_first_column mset_last_column)
    also have "\<dots> = length (filter (\<lambda>r. hd r < ?c) ?M)"
      by (simp add: less_count_def filter_map comp_def)
    finally show ?thesis .
  qed
  have lf: "LF ?L k = length (filter (\<lambda>r. hd r < ?c) ?M) + ?p"
    by (simp only: LF_def c p fo)
  have pos: "?p < length ?Lc" "?Lc ! ?p = ?M ! k"
    using filter_nth_pos [of k ?M "\<lambda>r. last r = ?c"] kM by simp_all
  have FL: "map rotr ?Lc = ?Fc" using t by (rule rotr_last_rows)
  then have "length ?Fc = length ?Lc" by (metis length_map)
  with pos have pF: "?p < length ?Fc" by simp
  have "?Fc ! ?p = rotr (?Lc ! ?p)" using pos(1) FL by (metis nth_map)
  then have Fp: "?Fc ! ?p = rotr (?M ! k)" using pos(2) by simp
  have sh: "sorted (map hd ?M)"
    using props(2) sorted_rotations_rows(2) [OF t] by (intro sorted_map_hd) auto
  from sorted_block_nth [OF sh pF] Fp lf props(1)
  show "LF ?L k < length seq" and "?M ! LF ?L k = rotr (?M ! k)" by simp_all
qed

lemma sorted_block_rank:
  fixes F :: "'a::linorder list"
  assumes "sorted F" "p < count_list F c"
  shows "less_count F c + p < length F"
    and "F ! (less_count F c + p) = c"
    and "occ F c (less_count F c + p) = p"
proof -
  let ?A = "filter (\<lambda>x. x < c) F" and ?B = "filter (\<lambda>x. x = c) F" and ?C = "filter (\<lambda>x. c < x) F"
  have F: "?A @ ?B @ ?C = F"
    using sorted_three_way [of "\<lambda>x. x" F c] assms(1) by simp
  have B: "?B = replicate (count_list F c) c"
    by (induction F) simp_all
  have lenB: "p < length ?B" using assms(2) B by simp
  have len: "length F = length ?A + length ?B + length ?C"
    using F by (metis length_append add.assoc)
  show "less_count F c + p < length F" using len lenB by (simp add: less_count_def)
  have "(?A @ ?B @ ?C) ! (length ?A + p) = ?B ! p" using lenB by (simp add: nth_append)
  also have "\<dots> = c" using lenB B by (metis nth_replicate length_replicate)
  finally show "F ! (less_count F c + p) = c" using F by (simp add: less_count_def)
  have "take (length ?A + p) (?A @ ?B @ ?C) = ?A @ take p ?B" using lenB by simp
  then have "take (less_count F c + p) F = ?A @ take p ?B"
    using F by (simp add: less_count_def)
  moreover have "count_list ?A c = 0" by (induction F) simp_all
  moreover have "count_list (take p ?B) c = p"
  proof -
    have "take p ?B = replicate p c" using B assms(2) by (simp add: min_def)
    then show ?thesis by (simp add: count_list_map_filter [of "\<lambda>x. x", simplified])
  qed
  ultimately show "occ F c (less_count F c + p) = p" by (simp add: occ_def)
qed

lemma rank_tags_first_last:
  assumes t: "terminated sen seq" and k: "k < length seq"
  shows "rank_tags (sort (map last (sorted_rotations seq))) ! LF (map last (sorted_rotations seq)) k
       = rank_tags (map last (sorted_rotations seq)) ! k"
proof -
  let ?L = "map last (sorted_rotations seq)"
  let ?F = "sort ?L"
  let ?c = "?L ! k"
  have kL: "k < length ?L" using k sorted_rotations_props(1) [OF t] by simp
  have "occ ?L ?c k < count_list ?L ?c"
    using count_list_take_less [of k "length ?L" ?L ?c] kL by (simp add: occ_def)
  also have "count_list ?L ?c = count_list ?F ?c"
    unfolding count_list_eq_length_filter by (intro length_filter_mset) simp
  finally have p: "occ ?L ?c k < count_list ?F ?c" .
  have lc: "less_count ?F ?c = less_count ?L ?c" by (intro less_count_mset) simp
  from sorted_block_rank [OF sorted_sort p] lc
  have j: "LF ?L k < length ?F" "?F ! LF ?L k = ?c" "occ ?F ?c (LF ?L k) = occ ?L ?c k"
    by (simp_all add: LF_def)
  show ?thesis
    using j kL by (simp add: rank_tags_nth occ_def)
qed

section \<open>The backward walk\<close>

lemma obter_loop_walk:
  fixes t :: "nat \<Rightarrow> string" and pos :: "nat \<Rightarrow> nat"
  assumes dist: "distinct TL" and lenF: "length TF = length TL"
    and step: "\<And>m. m < N \<Longrightarrow>
        pos m < length TL \<and> TL ! pos m = t m \<and> t m \<noteq> [] \<and> TF ! pos m = t (Suc m)"
    and m: "m < N" and p: "p \<le> length TL"
  shows "\<exists>m' ret.
      obter_loop (drop p TL) (int p - 1) (int N) TF (t m) (map (\<lambda>k. hd (t k)) [0..<m])
        = Inr (ret, t m', map (\<lambda>k. hd (t k)) [0..<m'])
      \<and> m \<le> m' \<and> (p \<le> pos m \<longrightarrow> m < m') \<and> (if ret then m' = N else m' < N)"
  using m p
proof (induction "length TL - p" arbitrary: p m)
  case 0
  then have "drop p TL = []" by simp
  moreover have "\<not> p \<le> pos m" using step [OF "0.prems"(1)] 0 by simp
  ultimately show ?case using "0.prems"(1) by (intro exI [of _ m] exI [of _ False]) simp
next
  case (Suc d)
  then have pl: "p < length TL" by simp
  then have dr: "drop p TL = TL ! p # drop (Suc p) TL" by (simp add: Cons_nth_drop_Suc)
  have d: "d = length TL - Suc p" using Suc.hyps(2) by simp
  have sp: "Suc p \<le> length TL" using pl by simp
  note st = step [OF Suc.prems(1)]
  have ip: "int p - 1 + 1 = int (Suc p) - 1" by simp
  show ?case
  proof (cases "TL ! p = t m")
    case True
    then have pp: "pos m = p" using st dist pl by (metis nth_eq_iff_index_eq)
    have get: "py_get TF (int p - 1 + 1) = Inr (t (Suc m))"
      using st pp pl lenF by (simp add: py_get_def)
    have outs: "map (\<lambda>k. hd (t k)) [0..<m] @ [hd (t m)] = map (\<lambda>k. hd (t k)) [0..<Suc m]"
      by simp
    show ?thesis
    proof (cases "Suc m = N")
      case eq: True
      have "obter_loop (drop p TL) (int p - 1) (int N) TF (t m) (map (\<lambda>k. hd (t k)) [0..<m])
          = Inr (True, t (Suc m), map (\<lambda>k. hd (t k)) [0..<Suc m])"
        unfolding dr using True st get eq by (simp del: upt_Suc add: outs)
      then show ?thesis using eq pp
        by (intro exI [of _ "Suc m"] exI [of _ True]) simp
    next
      case ne: False
      then have sm: "Suc m < N" using Suc.prems(1) by simp
      from Suc.hyps(1) [OF d sm sp] obtain m' ret where
        r: "obter_loop (drop (Suc p) TL) (int (Suc p) - 1) (int N) TF (t (Suc m))
              (map (\<lambda>k. hd (t k)) [0..<Suc m]) = Inr (ret, t m', map (\<lambda>k. hd (t k)) [0..<m'])"
        and m': "Suc m \<le> m'" "if ret then m' = N else m' < N"
        by blast
      have "obter_loop (drop p TL) (int p - 1) (int N) TF (t m) (map (\<lambda>k. hd (t k)) [0..<m])
          = Inr (ret, t m', map (\<lambda>k. hd (t k)) [0..<m'])"
        unfolding dr using True st get ne r by (simp del: upt_Suc add: outs ip)
      then show ?thesis using m'
        by (intro exI [of _ m'] exI [of _ ret]) simp
    qed
  next
    case False
    then have pp: "pos m \<noteq> p" using st by auto
    from Suc.hyps(1) [OF d Suc.prems(1) sp] obtain m' ret where
      r: "obter_loop (drop (Suc p) TL) (int (Suc p) - 1) (int N) TF (t m)
            (map (\<lambda>k. hd (t k)) [0..<m]) = Inr (ret, t m', map (\<lambda>k. hd (t k)) [0..<m'])"
      and m': "m \<le> m'" "Suc p \<le> pos m \<longrightarrow> m < m'" "if ret then m' = N else m' < N"
      by blast
    have "obter_loop (drop p TL) (int p - 1) (int N) TF (t m) (map (\<lambda>k. hd (t k)) [0..<m])
        = Inr (ret, t m', map (\<lambda>k. hd (t k)) [0..<m'])"
      unfolding dr using False Suc.prems(1) r by (simp add: ip)
    moreover have "p \<le> pos m \<longrightarrow> m < m'" using pp m'(2) by auto
    ultimately show ?thesis using m'
      by (intro exI [of _ m'] exI [of _ ret]) simp
  qed
qed

lemma obterSequenciaOriginal_walk:
  fixes t :: "nat \<Rightarrow> string" and pos :: "nat \<Rightarrow> nat"
  assumes dist: "distinct TL" and lenF: "length TF = length TL"
    and step: "\<And>m. m < N \<Longrightarrow>
        pos m < length TL \<and> TL ! pos m = t m \<and> t m \<noteq> [] \<and> TF ! pos m = t (Suc m)"
    and m: "m < N" and depth: "N - m \<le> depth"
    and lista: "listaSequenciaOriginal self = map (\<lambda>k. hd (t k)) [0..<m]"
  shows "obterSequenciaOriginal depth self (t m) (int N) TF TL
       = Some (Inr (self\<lparr>listaSequenciaOriginal := map (\<lambda>k. hd (t k)) [0..<N]\<rparr>))"
  using m depth lista
proof (induction depth arbitrary: m self)
  case 0
  then show ?case by simp
next
  case (Suc depth)
  have "\<exists>m' ret.
      obter_loop (drop 0 TL) (int 0 - 1) (int N) TF (t m) (map (\<lambda>k. hd (t k)) [0..<m])
        = Inr (ret, t m', map (\<lambda>k. hd (t k)) [0..<m'])
      \<and> m \<le> m' \<and> (0 \<le> pos m \<longrightarrow> m < m') \<and> (if ret then m' = N else m' < N)"
    using dist lenF _ Suc.prems(1)
  proof (rule obter_loop_walk [where pos = pos and t = t])
    show "0 \<le> length TL" by simp
    show "pos k < length TL \<and> TL ! pos k = t k \<and> t k \<noteq> [] \<and> TF ! pos k = t (Suc k)"
      if "k < N" for k using that by (rule step)
  qed
  then obtain m' ret where
    r: "obter_loop TL (- 1) (int N) TF (t m) (map (\<lambda>k. hd (t k)) [0..<m])
          = Inr (ret, t m', map (\<lambda>k. hd (t k)) [0..<m'])"
    and m': "m < m'" "if ret then m' = N else m' < N"
    by auto
  show ?case
  proof (cases ret)
    case True
    with r m' Suc.prems(3) show ?thesis by simp
  next
    case False
    let ?self' = "self\<lparr>listaSequenciaOriginal := map (\<lambda>k. hd (t k)) [0..<m']\<rparr>"
    from False m' have lt: "m' < N" by simp
    have dp: "N - m' \<le> depth" using Suc.prems(2) m'(1) by simp
    have "obterSequenciaOriginal depth ?self' (t m') (int N) TF TL
        = Some (Inr (?self'\<lparr>listaSequenciaOriginal := map (\<lambda>k. hd (t k)) [0..<N]\<rparr>))"
      by (rule Suc.IH [OF lt dp]) simp
    with r False Suc.prems(3) show ?thesis by simp
  qed
qed

section \<open>Round trip\<close>

lemma sorted_rotations_index:
  fixes seq :: string
  assumes "terminated sen seq"
  shows "\<exists>k<length seq. sorted_rotations seq ! k = rotate m seq"
proof -
  have ne: "seq \<noteq> []" using assms by (simp add: terminated_def)
  have "rotate m seq = rotate (m mod length seq) seq" by (rule rotate_conv_mod)
  moreover have "m mod length seq < length seq" using ne by simp
  ultimately have "rotate m seq \<in> set (sorted_rotations seq)"
    unfolding sorted_rotations_props(4) [OF assms] by (metis atLeastLessThan_iff image_eqI zero_le)
  then show ?thesis
    using sorted_rotations_props(1) [OF assms] by (metis in_set_conv_nth)
qed

lemma sentinel_rank_zero:
  fixes seq :: string
  assumes t: "terminated sen seq" and k: "k < length seq"
    and row: "sorted_rotations seq ! k = seq"
  shows "rank_tags (map last (sorted_rotations seq)) ! k = sen # str_int 0"
proof -
  let ?L = "map last (sorted_rotations seq)"
  have len: "length ?L = length seq" using sorted_rotations_props(1) [OF t] by simp
  have Lk: "?L ! k = sen" using k len row t by (simp add: terminated_def)
  have "count_list seq sen = 1"
  proof -
    have "seq = butlast seq @ [sen]" using t by (simp add: terminated_def) (metis append_butlast_last_id)
    moreover have "count_list (butlast seq) sen = 0"
      using t by (auto simp: terminated_def count_list_0_iff)
    ultimately show ?thesis by (metis count_list_append count_list.simps add_0 add.commute)
  qed
  moreover have "count_list ?L sen = count_list seq sen"
    unfolding count_list_eq_length_filter by (intro length_filter_mset mset_last_column)
  moreover have "count_list (take k ?L) sen < count_list (take (length ?L) ?L) sen"
    using k len Lk by (intro count_list_take_less) simp_all
  ultimately have "count_list (take k ?L) sen = 0" by simp
  then show ?thesis using k len Lk by (simp add: rank_tags_nth)
qed

lemma map_last_rotate: "map (\<lambda>m. last (rotate m seq)) [0..<length seq] = rotr seq"
proof (rule nth_equalityI)
  show "length (map (\<lambda>m. last (rotate m seq)) [0..<length seq]) = length (rotr seq)"
    by (simp add: length_rotr)
next
  fix m assume "m < length (map (\<lambda>m. last (rotate m seq)) [0..<length seq])"
  then have m: "m < length seq" by simp
  then have ne: "seq \<noteq> []" by auto
  have "last (rotate m seq) = rotr seq ! m"
  proof (cases m)
    case 0
    then show ?thesis using ne by (simp add: rotr_def)
  next
    case (Suc j)
    have "(m + length seq - 1) mod length seq = j"
    proof -
      have "m + length seq - 1 = j + length seq" using Suc by simp
      then have "(m + length seq - 1) mod length seq = j mod length seq"
        by (simp only: mod_add_self2)
      then show ?thesis using Suc m by simp
    qed
    then have "last (rotate m seq) = seq ! j" using ne by (simp add: last_rotate)
    moreover have "rotr seq ! m = seq ! j"
      using Suc m ne by (simp add: rotr_def nth_butlast)
    ultimately show ?thesis by simp
  qed
  then show "map (\<lambda>m. last (rotate m seq)) [0..<length seq] ! m = rotr seq ! m"
    using m by simp
qed

lemma invert_transform:
  fixes seq :: string
  assumes t: "terminated sen seq" and depth: "length seq \<le> depth"
  shows "invert depth sen (map last (sorted_rotations seq)) = Some (Inr seq)"
proof -
  let ?n = "length seq"
  let ?M = "sorted_rotations seq"
  let ?L = "map last ?M"
  let ?TL = "rank_tags ?L" and ?TF = "rank_tags (sort ?L)"
  let ?self = "criarDicionarioOcorrencias (BWT_init []) ?L"
  note props = sorted_rotations_props [OF t]
  have ne: "seq \<noteq> []" using t by (simp add: terminated_def)
  have lenL: "length ?L = ?n" using props(1) by simp
  from sorted_rotations_index [OF t] obtain pos where
    pos: "\<And>m. pos m < ?n" "\<And>m. ?M ! pos m = rotate m seq"
    by metis
  define tg where "tg m = ?TL ! pos m" for m
  have step: "pos m < length ?TL \<and> ?TL ! pos m = tg m \<and> tg m \<noteq> [] \<and> ?TF ! pos m = tg (Suc m)"
    if "m < ?n" for m
  proof -
    have "?M ! LF ?L (pos (Suc m)) = rotr (rotate (Suc m) seq)"
      using LF_row(2) [OF t pos(1) [of "Suc m"]] pos(2) by simp
    also have "\<dots> = ?M ! pos m" using pos(2) by (simp add: rotr_rotate1)
    finally have "LF ?L (pos (Suc m)) = pos m"
      using props(1,3) LF_row(1) [OF t pos(1) [of "Suc m"]] pos(1) [of m]
      by (simp add: nth_eq_iff_index_eq)
    then have "?TF ! pos m = ?TL ! pos (Suc m)"
      using rank_tags_first_last [OF t pos(1) [of "Suc m"]] by simp
    moreover have "tg m \<noteq> []"
      using pos(1) [of m] lenL by (simp add: tg_def rank_tags_nth)
    ultimately show ?thesis
      using pos(1) [of m] lenL by (simp add: tg_def length_rank_tags)
  qed
  have hd_tg: "hd (tg m) = last (rotate m seq)" for m
    using pos(1) [of m] pos(2) [of m] lenL props(1) by (simp add: tg_def rank_tags_nth)
  have tg0: "tg 0 = sen # str_int 0"
    unfolding tg_def using t pos(1) [of 0] by (rule sentinel_rank_zero) (simp add: pos(2))
  have "obterSequenciaOriginal depth ?self (tg 0) (int ?n) ?TF ?TL
      = Some (Inr (?self\<lparr>listaSequenciaOriginal := map (\<lambda>k. hd (tg k)) [0..<?n]\<rparr>))"
  proof (rule obterSequenciaOriginal_walk [where pos = pos])
    show "distinct ?TL" by (rule distinct_rank_tags)
    show "length ?TF = length ?TL" by (simp add: length_rank_tags)
    show "pos m < length ?TL \<and> ?TL ! pos m = tg m \<and> tg m \<noteq> [] \<and> ?TF ! pos m = tg (Suc m)"
      if "m < ?n" for m using that by (rule step)
    show "0 < ?n" using ne by simp
    show "?n - 0 \<le> depth" using depth by simp
    show "listaSequenciaOriginal ?self = map (\<lambda>k. hd (tg k)) [0..<0]"
      by (simp add: criarDicionarioOcorrencias_def BWT_init_def)
  qed
  moreover have "map (\<lambda>k. hd (tg k)) [0..<?n] = rotr seq"
    by (simp only: hd_tg map_last_rotate)
  moreover have "SequenciaOriginalEmString (?self\<lparr>listaSequenciaOriginal := rotr seq\<rparr>) = Inr seq"
    using ne by (simp add: SequenciaOriginalEmString_def rotr_def Let_def)
  ultimately show ?thesis
    by (simp add: invert_eq tg0 props(1))
qed

text \<open>
  Claim C1 (round trip), as stated: for every sequence with exactly one sentinel, the
  smallest symbol. In \<open>A$B\<close> the sentinel is unique and smallest but not last; the
  reconstruction of the transform of \<open>A$B\<close> is the rotation \<open>BA$\<close>.
\<close>

theorem round_trip_counterexample:
  "transform ''A$B'' = Inr ''AB$'' \<and> invert 3 (CHR ''$'') ''AB$'' = Some (Inr ''BA$'')"
  by code_simp

text \<open>
  Claim C1, amended: for every sequence terminated by its sentinel (the sentinel is the
  last symbol and every other symbol is greater), reconstructing from the transform of the
  sequence, by the rank-tagged walk from the tag of the sentinel's occurrence 0 and the
  final rotation to the left, returns the sequence itself, once the recursion is allowed
  a depth of the length of the sequence.
\<close>

theorem round_trip:
  assumes "terminated sen seq" "length seq \<le> depth"
  shows "\<exists>bwt. transform seq = Inr bwt \<and> invert depth sen bwt = Some (Inr seq)"
  using invert_transform [OF assms] transform_sorted_rotations [of seq] by simp

text \<open>Witness of C1: the driver's sequence.\<close>

theorem round_trip_witness:
  "terminated (CHR ''$'') ''TAGACAGAGA$'' \<and> length ''TAGACAGAGA$'' \<le> 11
   \<and> transform ''TAGACAGAGA$'' = Inr ''AGGGTCAAAA$''
   \<and> invert 11 (CHR ''$'') ''AGGGTCAAAA$'' = Some (Inr ''TAGACAGAGA$'')"
proof -
  have t: "terminated (CHR ''$'') ''TAGACAGAGA$''" by (simp add: terminated_def)
  have l: "length ''TAGACAGAGA$'' \<le> 11" by simp
  have b: "transform ''TAGACAGAGA$'' = Inr ''AGGGTCAAAA$''" by code_simp
  from round_trip [OF t l] b
  have "invert 11 (CHR ''$'') ''AGGGTCAAAA$'' = Some (Inr ''TAGACAGAGA$'')" by simp
  with t l b show ?thesis by simp
qed

section \<open>The tables of the FM index\<close>

lemma dict_get_dict_of_missing: "k \<notin> set ks \<Longrightarrow> dict_get (dict_of ks f) k = Inl KeyError"
proof -
  assume "k \<notin> set ks"
  then have "map_of (map (\<lambda>k. (k, f k)) ks) k = None"
    by (induction ks) auto
  then show ?thesis by (simp add: dict_get_def dict_of_def)
qed

lemma occ_Suc:
  "i < length col \<Longrightarrow> occ col c (Suc i) = occ col c i + (if col ! i = c then 1 else 0)"
  by (simp add: occ_def count_list_take_Suc)

lemma occ_0: "occ col c 0 = 0"
  by (simp add: occ_def)

lemma count_row_step:
  assumes "j < length bwt"
  shows "(if c = bwt ! j
          then ((count_row bwt c j)[Suc j := count_row bwt c j ! j])
                 [Suc j := ((count_row bwt c j)[Suc j := count_row bwt c j ! j]) ! Suc j + 1]
          else (count_row bwt c j)[Suc j := count_row bwt c j ! j])
       = count_row bwt c (Suc j)"
proof -
  define xs where "xs = count_row bwt c j"
  define ys where "ys = count_row bwt c (Suc j)"
  have len: "length xs = length bwt + 1" "length ys = length bwt + 1"
    by (simp_all add: xs_def ys_def count_row_def)
  have j: "xs ! j = int (occ bwt c j)"
    using assms by (simp add: xs_def count_row_def del: upt_Suc)
  have old: "xs ! i = (if i \<le> j then int (occ bwt c i) else 0)" if "i < length bwt + 1" for i
    using that by (simp add: xs_def count_row_def del: upt_Suc)
  have new: "ys ! i = (if i \<le> Suc j then int (occ bwt c i) else 0)" if "i < length bwt + 1" for i
    using that by (simp add: ys_def count_row_def del: upt_Suc)
  have sj: "ys ! Suc j = int (occ bwt c j) + (if bwt ! j = c then 1 else 0)"
    using assms new [of "Suc j"] by (simp add: occ_Suc)
  have "(if c = bwt ! j then (xs[Suc j := xs ! j])[Suc j := (xs[Suc j := xs ! j]) ! Suc j + 1]
         else xs[Suc j := xs ! j]) = ys"
  proof (rule nth_equalityI)
    show "length (if c = bwt ! j then (xs[Suc j := xs ! j])[Suc j := (xs[Suc j := xs ! j]) ! Suc j + 1]
         else xs[Suc j := xs ! j]) = length ys"
      using len by simp
  next
    fix i
    assume "i < length (if c = bwt ! j
        then (xs[Suc j := xs ! j])[Suc j := (xs[Suc j := xs ! j]) ! Suc j + 1]
        else xs[Suc j := xs ! j])"
    then have i: "i < length bwt + 1" using len by (simp split: if_splits)
    show "(if c = bwt ! j then (xs[Suc j := xs ! j])[Suc j := (xs[Suc j := xs ! j]) ! Suc j + 1]
         else xs[Suc j := xs ! j]) ! i = ys ! i"
    proof (cases "i = Suc j")
      case True
      have "Suc j < length xs" using assms len by simp
      then show ?thesis using True j sj by auto
    next
      case False
      then have "i \<le> Suc j \<longleftrightarrow> i \<le> j" by auto
      then show ?thesis using False old [OF i] new [OF i] by simp
    qed
  qed
  then show ?thesis by (simp only: xs_def ys_def)
qed

lemma count_step_rows:
  assumes "j < length bwt"
  shows "count_step bwt (dict_of ks (\<lambda>c. count_row bwt c j)) (Suc j)
       = dict_of ks (\<lambda>c. count_row bwt c (Suc j))"
proof -
  have "count_step bwt (dict_of ks (\<lambda>c. count_row bwt c j)) (Suc j)
      = map (\<lambda>c. (c, if c = bwt ! j
          then ((count_row bwt c j)[Suc j := count_row bwt c j ! j])
                 [Suc j := ((count_row bwt c j)[Suc j := count_row bwt c j ! j]) ! Suc j + 1]
          else (count_row bwt c j)[Suc j := count_row bwt c j ! j])) ks"
    by (simp add: count_step_def dict_of_def Let_def comp_def)
  also have "\<dots> = map (\<lambda>c. (c, count_row bwt c (Suc j))) ks"
    using assms by (simp only: count_row_step)
  finally show ?thesis by (simp add: dict_of_def)
qed

lemma count_table_prefix:
  "j \<le> length bwt \<Longrightarrow>
     foldl (count_step bwt) (count_init bwt) [1..<j + 1]
       = dict_of (remdups bwt) (\<lambda>c. count_row bwt c j)"
proof (induction j)
  case 0
  have "count_row bwt c 0 = replicate (length bwt + 1) 0" for c
    by (rule nth_equalityI) (auto simp: count_row_def occ_0 simp del: upt_Suc)
  then show ?case by (simp add: count_init_def dict_of_def)
next
  case (Suc j)
  then have j: "j < length bwt" by simp
  have "[1..<Suc j + 1] = [1..<j + 1] @ [Suc j]" by simp
  then have "foldl (count_step bwt) (count_init bwt) [1..<Suc j + 1]
      = count_step bwt (foldl (count_step bwt) (count_init bwt) [1..<j + 1]) (Suc j)"
    by (simp only: foldl_append foldl.simps)
  also have "\<dots> = count_step bwt (dict_of (remdups bwt) (\<lambda>c. count_row bwt c j)) (Suc j)"
    using Suc.IH j by simp
  finally show ?case using j by (simp only: count_step_rows)
qed

lemma count_table_eq:
  "count_table bwt = dict_of (remdups bwt) (\<lambda>c. count_row bwt c (length bwt))"
  unfolding count_table_def by (rule count_table_prefix) simp

lemma count_table_get:
  "c \<in> set bwt \<Longrightarrow> dict_get (count_table bwt) c = Inr (count_row bwt c (length bwt))"
  by (simp add: count_table_eq dict_get_dict_of)

lemma count_table_missing: "c \<notin> set bwt \<Longrightarrow> dict_get (count_table bwt) c = Inl KeyError"
  by (simp add: count_table_eq dict_get_dict_of_missing)

lemma count_row_get:
  "i \<le> length bwt \<Longrightarrow> py_get (count_row bwt c (length bwt)) (int i) = Inr (int (occ bwt c i))"
  by (simp add: py_get_def count_row_def del: upt_Suc)

lemma map_of_dict_set: "map_of (dict_set d k v) = (map_of d)(k \<mapsto> v)"
proof (induction d)
  case Nil
  then show ?case by simp
next
  case (Cons a d)
  obtain k' v' where a: "a = (k', v')" by (cases a)
  show ?case using Cons a by (auto simp: fun_eq_iff)
qed

lemma first_occurrence_loop_map_of:
  "map_of (first_occurrence_loop i cs fo) c =
     (case map_of fo c of
        Some v \<Rightarrow> Some v
      | None \<Rightarrow> if c \<in> set cs then Some (int (i + length (takeWhile (\<lambda>x. x \<noteq> c) cs))) else None)"
proof (induction cs arbitrary: i fo)
  case Nil
  then show ?case by (simp split: option.splits)
next
  case (Cons x cs)
  show ?case
    by (simp add: Cons.IH map_of_dict_set split: option.splits)
qed

lemma takeWhile_sorted:
  fixes F :: "'a::linorder list"
  assumes "sorted F" "c \<in> set F"
  shows "length (takeWhile (\<lambda>x. x \<noteq> c) F) = less_count F c"
proof -
  let ?A = "filter (\<lambda>x. x < c) F" and ?B = "filter (\<lambda>x. x = c) F" and ?C = "filter (\<lambda>x. c < x) F"
  have F: "?A @ ?B @ ?C = F"
    using sorted_three_way [of "\<lambda>x. x" F c] assms(1) by simp
  have "?B \<noteq> []" using assms(2) by (simp add: filter_empty_conv)
  then have "hd ?B \<in> set ?B" by (rule hd_in_set)
  then have "hd ?B = c" by simp
  with \<open>?B \<noteq> []\<close> have B: "?B = c # tl ?B" by (metis list.collapse)
  define B' where "B' = tl ?B"
  have "takeWhile (\<lambda>x. x \<noteq> c) (?A @ c # (B' @ ?C)) = ?A"
    by (rule takeWhile_tail [THEN trans, OF _ takeWhile_eq_all_conv [THEN iffD2]]) auto
  moreover have "F = ?A @ c # (B' @ ?C)"
    using F B by (metis B'_def append_Cons)
  ultimately show ?thesis by (simp add: less_count_def)
qed

lemma first_occurrence_get:
  "c \<in> set bwt \<Longrightarrow>
     dict_get (first_occurrence_table (sort bwt)) c = Inr (int (less_count bwt c))"
proof -
  assume c: "c \<in> set bwt"
  have "length (takeWhile (\<lambda>x. x \<noteq> c) (sort bwt)) = less_count (sort bwt) c"
    using c by (intro takeWhile_sorted) simp_all
  also have "\<dots> = less_count bwt c" by (intro less_count_mset) simp
  finally show ?thesis
    using c by (simp add: dict_get_def first_occurrence_table_def first_occurrence_loop_map_of)
qed

section \<open>Backward search\<close>

lemma occ_mono: "i \<le> j \<Longrightarrow> occ col c i \<le> occ col c j"
  unfolding occ_def by (rule count_list_take_mono)

lemma occ_less: "i < j \<Longrightarrow> j \<le> length col \<Longrightarrow> col ! i = c \<Longrightarrow> occ col c i < occ col c j"
  unfolding occ_def by (rule count_list_take_less)

lemma occ_hit:
  assumes "lo \<le> hi" "hi \<le> length col" "occ col c lo \<le> q" "q < occ col c hi"
  shows "\<exists>k. lo \<le> k \<and> k < hi \<and> col ! k = c \<and> occ col c k = q"
  using assms
proof (induction hi)
  case 0
  then show ?case by simp
next
  case (Suc h)
  show ?case
  proof (cases "q < occ col c h")
    case True
    have "lo \<le> h"
    proof (rule ccontr)
      assume "\<not> lo \<le> h"
      then have "lo = Suc h" using Suc.prems(1) by simp
      then show False using Suc.prems(3,4) by simp
    qed
    with Suc True obtain k where "lo \<le> k" "k < h" "col ! k = c" "occ col c k = q" by auto
    then show ?thesis by (intro exI [of _ k]) simp
  next
    case False
    have h: "h < length col" using Suc.prems(2) by simp
    have "lo \<le> h"
    proof (rule ccontr)
      assume "\<not> lo \<le> h"
      then have "lo = Suc h" using Suc.prems(1) by simp
      then show False using Suc.prems(3,4) by simp
    qed
    moreover have "col ! h = c \<and> occ col c h = q"
      using False Suc.prems(4) h by (simp add: occ_Suc split: if_splits)
    ultimately show ?thesis by (intro exI [of _ h]) simp
  qed
qed

lemma match_Cons_rotate1:
  assumes "r \<noteq> []" "length Q < length r"
  shows "take (Suc (length Q)) r = c # Q \<longleftrightarrow> hd r = c \<and> take (length Q) (rotate1 r) = Q"
proof -
  obtain x xs where r: "r = x # xs" using assms(1) by (cases r) auto
  then have "length Q \<le> length xs" using assms(2) by simp
  then have "take (length Q) (xs @ [x]) = take (length Q) xs" by simp
  then show ?thesis using r by auto
qed

lemma narrow_range:
  fixes seq :: string
  assumes t: "terminated sen seq"
    and inv: "\<forall>k<length seq. (lo \<le> k \<and> k < hi) \<longleftrightarrow>
                take (length Q) (sorted_rotations seq ! k) = Q"
    and range: "lo \<le> hi" "hi \<le> length seq"
    and Q: "length Q < length seq"
    and k': "k' < length seq"
  shows "(less_count (map last (sorted_rotations seq)) c + occ (map last (sorted_rotations seq)) c lo \<le> k'
          \<and> k' < less_count (map last (sorted_rotations seq)) c + occ (map last (sorted_rotations seq)) c hi)
       \<longleftrightarrow> take (Suc (length Q)) (sorted_rotations seq ! k') = c # Q"
proof
  let ?M = "sorted_rotations seq"
  let ?L = "map last ?M"
  note props = sorted_rotations_props [OF t]
  note rows = sorted_rotations_rows [OF t]
  have lenL: "length ?L = length seq" using props(1) by simp
  have row': "?M ! k' \<in> set ?M" using k' props(1) by simp
  {
    assume m: "take (Suc (length Q)) (?M ! k') = c # Q"
    have hd: "hd (?M ! k') = c" and tk: "take (length Q) (rotate1 (?M ! k')) = Q"
      using m match_Cons_rotate1 [of "?M ! k'" Q c] rows(1,2) [OF row'] Q by simp_all
    obtain k where k: "k < length seq" "?M ! k = rotate1 (?M ! k')"
      using rows(3) [OF row'] props(1) by (metis in_set_conv_nth)
    have "take (length Q) (?M ! k) = Q" using tk k(2) by simp
    then have "lo \<le> k \<and> k < hi" using inv k(1) by blast
    then have in_range: "lo \<le> k" "k < hi" by simp_all
    have Lk: "?L ! k = c"
      using hd k props(1) rows(2) [OF row'] by (simp add: last_rotate1)
    have "?M ! LF ?L k = ?M ! k'"
      using LF_row(2) [OF t k(1)] k(2) by (simp add: rotr_rotate1)
    then have "LF ?L k = k'"
      using props(1,3) LF_row(1) [OF t k(1)] k' by (simp add: nth_eq_iff_index_eq)
    then have eq: "k' = less_count ?L c + occ ?L c k" using Lk by (simp add: LF_def)
    have "occ ?L c lo \<le> occ ?L c k" using in_range(1) by (rule occ_mono)
    moreover have "occ ?L c k < occ ?L c hi"
      using in_range(2) range(2) lenL Lk by (intro occ_less) simp_all
    ultimately show "less_count ?L c + occ ?L c lo \<le> k' \<and> k' < less_count ?L c + occ ?L c hi"
      using eq by simp
  }
  {
    assume r: "less_count ?L c + occ ?L c lo \<le> k' \<and> k' < less_count ?L c + occ ?L c hi"
    then have "occ ?L c lo \<le> k' - less_count ?L c" "k' - less_count ?L c < occ ?L c hi"
      by linarith+
    from occ_hit [OF range(1) _ this] range(2) lenL obtain k where
      k: "lo \<le> k" "k < hi" "?L ! k = c" "occ ?L c k = k' - less_count ?L c"
      by auto
    then have kn: "k < length seq" using range(2) by simp
    have "LF ?L k = k'" using k r by (simp add: LF_def)
    then have row: "?M ! k' = rotr (?M ! k)" using LF_row(2) [OF t kn] by simp
    have rowk: "?M ! k \<in> set ?M" using kn props(1) by simp
    have "take (length Q) (?M ! k) = Q" using inv kn k(1,2) by blast
    moreover have "rotate1 (?M ! k') = ?M ! k" by (simp add: row rotate1_rotr)
    moreover have "hd (?M ! k') = c"
      using row rows(2) [OF rowk] k(3) kn props(1) by (simp add: hd_rotr)
    ultimately show "take (Suc (length Q)) (?M ! k') = c # Q"
      using match_Cons_rotate1 [of "?M ! k'" Q c] rows(1,2) [OF row'] Q by simp
  }
qed

lemma upto_int_upt: "[int lo..int hi - 1] = map int [lo..<hi]"
proof (induction hi)
  case 0
  then show ?case by simp
next
  case (Suc h)
  show ?case
  proof (cases "lo \<le> h")
    case True
    have "[int lo..int (Suc h) - 1] = [int lo..int h]" by simp
    also have "\<dots> = [int lo..int h - 1] @ [int h]"
      using True upto_rec2 [of "int lo" "int h"] by simp
    finally show ?thesis using Suc True by simp
  next
    case False
    then show ?thesis by simp
  qed
qed

lemma map_err_py_get_nths:
  "\<forall>k\<in>set ks. k < length l \<Longrightarrow> map_err (py_get l) (map int ks) = Inr (map ((!) l) ks)"
  by (induction ks) (simp_all add: py_get_def)

lemma sa_range:
  "hi \<le> length l \<Longrightarrow>
     map_err (sa_index (SA_List l)) [int lo..int hi - 1] = Inr (map ((!) l) [lo..<hi])"
proof -
  assume "hi \<le> length l"
  then have "\<forall>k\<in>set [lo..<hi]. k < length l" by simp
  moreover have "sa_index (SA_List l) = py_get l" by (rule ext) (simp add: sa_index_def)
  ultimately show ?thesis by (simp only: upto_int_upt map_err_py_get_nths)
qed

lemma match_shift:
  assumes "length (A @ B) \<le> length r" "take (length (A @ B)) r = A @ B"
  shows "take (length B) (rotate (length A) r) = B"
proof (cases "length A = length r")
  case True
  then show ?thesis using assms(1) by simp
next
  case False
  then have lt: "length A < length r" using assms(1) by simp
  then have "rotate (length A) r = drop (length A) r @ take (length A) r"
    by (simp add: rotate_drop_take)
  then have "take (length B) (rotate (length A) r) = take (length B) (drop (length A) r)"
    using assms(1) by simp
  also have "\<dots> = drop (length A) (take (length A + length B) r)"
    by (simp add: drop_take)
  also have "\<dots> = B" using assms(2) by simp
  finally show ?thesis .
qed

lemma less_count_plus_count: "less_count xs c + count_list xs c \<le> length xs"
  unfolding less_count_def by (induction xs) auto

lemma occ_le_count: "occ xs c i \<le> count_list xs c"
proof -
  have "occ xs c i \<le> occ xs c (max i (length xs))" by (rule occ_mono) simp
  then show ?thesis by (simp add: occ_def)
qed

lemma final_range:
  fixes seq :: string
  assumes t: "terminated sen seq"
    and range: "hi \<le> length seq"
    and inv: "\<forall>k<length seq. (lo \<le> k \<and> k < hi) \<longleftrightarrow>
                take (length Q) (sorted_rotations seq ! k) = Q"
  shows "sort (map ((!) (sort_key (\<lambda>i. drop i seq) [0..<length seq])) [lo..<hi])
       = cyclic_scan seq Q"
proof (rule properties_for_sort)
  let ?sa = "sort_key (\<lambda>i. drop i seq) [0..<length seq]"
  let ?M = "sorted_rotations seq"
  have M: "?M = map (\<lambda>i. rotate i seq) ?sa" using t by (rule sorted_rotations_suffix_array)
  have len: "length ?sa = length seq" by simp
  have set_sa: "set ?sa = {0..<length seq}" by simp
  have dist: "distinct ?sa" by simp
  have row: "?M ! k = rotate (?sa ! k) seq" if "k < length seq" for k
    using that by (simp add: M)
  show "sorted (cyclic_scan seq Q)"
    unfolding cyclic_scan_def by (rule sorted_wrt_filter) simp
  have d1: "distinct (map ((!) ?sa) [lo..<hi])"
    using dist range len by (auto simp: distinct_map inj_on_def nth_eq_iff_index_eq)
  have d2: "distinct (cyclic_scan seq Q)" by (simp add: cyclic_scan_def)
  have "set (map ((!) ?sa) [lo..<hi]) = set (cyclic_scan seq Q)"
  proof (intro set_eqI iffI)
    fix x assume "x \<in> set (map ((!) ?sa) [lo..<hi])"
    then obtain k where k: "lo \<le> k" "k < hi" "x = ?sa ! k" by auto
    then have kn: "k < length seq" using range by simp
    then have "x \<in> set ?sa" using k(3) len by (metis nth_mem)
    then have "x < length seq" by simp
    moreover have "take (length Q) (?M ! k) = Q" using inv kn k(1,2) by blast
    ultimately show "x \<in> set (cyclic_scan seq Q)"
      using row [OF kn] k(3) by (simp add: cyclic_scan_def)
  next
    fix x assume "x \<in> set (cyclic_scan seq Q)"
    then have x: "x < length seq" "take (length Q) (rotate x seq) = Q"
      by (simp_all add: cyclic_scan_def)
    then have "x \<in> set ?sa" by simp
    then obtain k where k: "k < length seq" "?sa ! k = x"
      using len by (metis in_set_conv_nth)
    then have "take (length Q) (?M ! k) = Q" using row [OF k(1)] x(2) by simp
    then have "lo \<le> k \<and> k < hi" using inv k(1) by blast
    then show "x \<in> set (map ((!) ?sa) [lo..<hi])" using k(2) by auto
  qed
  then show "mset (cyclic_scan seq Q) = mset (map ((!) ?sa) [lo..<hi])"
    using d1 d2 by (metis set_eq_iff_mset_eq_distinct)
qed

lemma fm_loop_correct:
  fixes seq :: string
  assumes t: "terminated sen seq"
  shows "length (P' @ Q) \<le> length seq \<Longrightarrow> set P' \<subseteq> set seq \<Longrightarrow> lo < hi \<Longrightarrow> hi \<le> length seq \<Longrightarrow>
     \<forall>k<length seq. (lo \<le> k \<and> k < hi) \<longleftrightarrow> take (length Q) (sorted_rotations seq ! k) = Q \<Longrightarrow>
     fm_loop (count_table (map last (sorted_rotations seq)))
        (first_occurrence_table (sort (map last (sorted_rotations seq))))
        (SA_List (sort_key (\<lambda>i. drop i seq) [0..<length seq])) (int lo) (int hi - 1) P'
       = Inr (cyclic_scan seq (P' @ Q))"
proof (induction P' arbitrary: Q lo hi rule: rev_induct)
  case Nil
  have "int lo \<le> int hi - 1" using Nil.prems(3) by simp
  moreover have "map_err (sa_index (SA_List (sort_key (\<lambda>i. drop i seq) [0..<length seq])))
      [int lo..int hi - 1] = Inr (map ((!) (sort_key (\<lambda>i. drop i seq) [0..<length seq])) [lo..<hi])"
    using Nil.prems(4) by (intro sa_range) simp
  ultimately show ?case
    using final_range [OF t Nil.prems(4) Nil.prems(5)]
    by (subst fm_loop.simps) simp
next
  case (snoc c P'')
  let ?M = "sorted_rotations seq"
  let ?L = "map last ?M"
  let ?cnt = "count_table ?L" and ?fo = "first_occurrence_table (sort ?L)"
  let ?sa = "SA_List (sort_key (\<lambda>i. drop i seq) [0..<length seq])"
  note props = sorted_rotations_props [OF t]
  have lenL: "length ?L = length seq" using props(1) by simp
  have "set ?L = set seq" using mset_last_column [of seq] by (rule mset_eq_setD)
  then have c: "c \<in> set ?L" using snoc.prems(2) by simp
  have le: "int lo \<le> int hi - 1" using snoc.prems(3) by simp
  have g1: "dict_get ?cnt c = Inr (count_row ?L c (length ?L))" using c by (rule count_table_get)
  have g2: "py_get (count_row ?L c (length ?L)) (int hi - 1 + 1) = Inr (int (occ ?L c hi))"
    using count_row_get [of hi ?L c] snoc.prems(4) lenL by simp
  have g3: "py_get (count_row ?L c (length ?L)) (int lo) = Inr (int (occ ?L c lo))"
    using count_row_get [of lo ?L c] snoc.prems(3,4) lenL by simp
  have g4: "dict_get ?fo c = Inr (int (less_count ?L c))" using c by (rule first_occurrence_get)
  have Q: "length Q < length seq" using snoc.prems(1) by simp
  have lohi: "lo \<le> hi" using snoc.prems(3) by simp
  note nr = narrow_range [OF t snoc.prems(5) lohi snoc.prems(4) Q]
  show ?case
  proof (cases "occ ?L c lo < occ ?L c hi")
    case True
    let ?lo' = "less_count ?L c + occ ?L c lo" and ?hi' = "less_count ?L c + occ ?L c hi"
    have "?hi' \<le> less_count ?L c + count_list ?L c" by (simp add: occ_le_count)
    also have "\<dots> \<le> length seq" using less_count_plus_count [of ?L c] lenL by simp
    finally have hi': "?hi' \<le> length seq" .
    have lo': "?lo' < ?hi'" using True by simp
    have inv': "\<forall>k<length seq. (?lo' \<le> k \<and> k < ?hi') \<longleftrightarrow>
        take (length (c # Q)) (?M ! k) = c # Q"
      using nr by simp
    have len': "length (P'' @ c # Q) \<le> length seq" using snoc.prems(1) by simp
    have sub': "set P'' \<subseteq> set seq" using snoc.prems(2) by simp
    have "fm_loop ?cnt ?fo ?sa (int ?lo') (int ?hi' - 1) P'' = Inr (cyclic_scan seq (P'' @ c # Q))"
      by (rule snoc.IH [OF len' sub' lo' hi' inv'])
    moreover have "fm_loop ?cnt ?fo ?sa (int lo) (int hi - 1) (P'' @ [c])
        = fm_loop ?cnt ?fo ?sa (int ?lo') (int ?hi' - 1) P''"
      using le g1 g2 g3 g4 True by (subst fm_loop.simps) simp
    ultimately show ?thesis by simp
  next
    case False
    have "cyclic_scan seq ((P'' @ [c]) @ Q) = []"
    proof (rule ccontr)
      assume "cyclic_scan seq ((P'' @ [c]) @ Q) \<noteq> []"
      then obtain i where i: "i < length seq"
        "take (length (P'' @ c # Q)) (rotate i seq) = P'' @ c # Q"
        by (auto simp: cyclic_scan_def filter_empty_conv)
      have "take (length (c # Q)) (rotate (length P'') (rotate i seq)) = c # Q"
        using snoc.prems(1) i(2) by (intro match_shift) simp_all
      then have m: "take (Suc (length Q)) (rotate (length P'' + i) seq) = c # Q"
        by (simp add: rotate_rotate)
      obtain k' where k': "k' < length seq" "?M ! k' = rotate (length P'' + i) seq"
        using sorted_rotations_index [OF t] by blast
      with m nr [OF k'(1), of c] False show False by simp
    qed
    moreover have "fm_loop ?cnt ?fo ?sa (int lo) (int hi - 1) (P'' @ [c]) = Inr []"
      using le g1 g2 g3 False by (subst fm_loop.simps) simp
    ultimately show ?thesis by simp
  qed
qed

lemma cyclic_scan_brute_force:
  assumes t: "terminated sen seq" and P: "sen \<notin> set (butlast P)" "length P \<le> length seq"
  shows "cyclic_scan seq P = brute_force_scan seq P"
  unfolding cyclic_scan_def brute_force_scan_def
proof (rule filter_cong [OF refl])
  fix i assume "i \<in> set [0..<length seq]"
  then have i: "i < length seq" by simp
  have rot: "rotate i seq = drop i seq @ take i seq" using i by (simp add: rotate_drop_take)
  show "(take (length P) (rotate i seq) = P) = (take (length P) (drop i seq) = P)"
  proof (cases "length P \<le> length seq - i")
    case True
    then show ?thesis by (simp add: rot)
  next
    case False
    then have long: "length seq - i < length P" by simp
    have "take (length P) (drop i seq) \<noteq> P"
    proof
      assume "take (length P) (drop i seq) = P"
      then have "length (take (length P) (drop i seq)) = length P" by simp
      then show False using long by simp
    qed
    moreover have "take (length P) (rotate i seq) \<noteq> P"
    proof
      assume eq: "take (length P) (rotate i seq) = P"
      let ?j = "length seq - i - 1"
      have j: "?j < length P - 1" using long i by simp
      have "P ! ?j = rotate i seq ! ?j" using j by (subst eq [symmetric]) simp
      also have "\<dots> = seq ! ((i + ?j) mod length seq)" using i by (simp add: nth_rotate)
      also have "(i + ?j) mod length seq = length seq - 1" using i by simp
      also have "seq ! (length seq - 1) = sen"
        using terminated_nth [OF t, of "length seq - 1"] i by simp
      finally have "P ! ?j = sen" .
      moreover have "butlast P ! ?j = P ! ?j" using j by (simp add: nth_butlast)
      moreover have "butlast P ! ?j \<in> set (butlast P)" using j by (intro nth_mem) simp
      ultimately show False using P(1) by simp
    qed
    ultimately show ?thesis by simp
  qed
qed

section \<open>The search oracle\<close>

lemma search_cyclic:
  fixes seq :: string
  assumes t: "terminated sen seq" and P: "set pattern \<subseteq> set seq" "length pattern \<le> length seq"
  shows "search seq pattern = Inr (cyclic_scan seq pattern)"
proof -
  let ?L = "map last (sorted_rotations seq)"
  let ?sa = "sort_key (\<lambda>i. drop i seq) [0..<length seq]"
  have ne: "0 < length seq" using t by (simp add: terminated_def)
  have lenL: "length ?L = length seq" using sorted_rotations_props(1) [OF t] by simp
  have "fm_loop (count_table ?L) (first_occurrence_table (sort ?L)) (SA_List ?sa)
      (int 0) (int (length seq) - 1) pattern = Inr (cyclic_scan seq (pattern @ []))"
    using t
  proof (rule fm_loop_correct)
    show "length (pattern @ []) \<le> length seq" using P(2) by simp
    show "set pattern \<subseteq> set seq" by (rule P(1))
    show "0 < length seq" by (rule ne)
    show "length seq \<le> length seq" by simp
    show "\<forall>k<length seq. (0 \<le> k \<and> k < length seq) \<longleftrightarrow>
        take (length []) (sorted_rotations seq ! k) = []"
      by simp
  qed
  then show ?thesis
    by (simp add: search_def suffix_array_fresh BWT_init_def procuraPadraoBWT_def
        transform_sorted_rotations sorted_rotations_props(1) [OF t])
qed

text \<open>
  Where the backward search and the brute-force scan agree: on a sequence terminated by
  its sentinel, for a pattern no longer than the sequence, made of symbols of the
  sequence, in which the sentinel occurs at most as the last symbol, the search returns
  exactly the indices \<open>i\<close> with \<open>seq[i : i + len(pattern)] == pattern\<close>, ascending.
\<close>

lemma search_plain_pattern:
  assumes "terminated sen seq" "length pattern \<le> length seq"
    "set pattern \<subseteq> set seq" "sen \<notin> set (butlast pattern)"
  shows "search seq pattern = Inr (brute_force_scan seq pattern)"
  using search_cyclic [OF assms(1,3,2)] cyclic_scan_brute_force [OF assms(1,4,2)] by simp

text \<open>The driver's sequence and pattern: \<open>AGA\<close> occurs at 1, 5 and 7.\<close>

lemma search_driver_pattern:
  "search ''TAGACAGAGA$'' ''AGA'' = Inr [1, 5, 7]
   \<and> brute_force_scan ''TAGACAGAGA$'' ''AGA'' = [1, 5, 7]"
proof -
  have a: "terminated (CHR ''$'') ''TAGACAGAGA$''" by (simp add: terminated_def)
  have b: "length ''AGA'' \<le> length ''TAGACAGAGA$''" by simp
  have c: "set ''AGA'' \<subseteq> set ''TAGACAGAGA$''" by simp
  have d: "CHR ''$'' \<notin> set (butlast ''AGA'')" by simp
  have e: "brute_force_scan ''TAGACAGAGA$'' ''AGA'' = [1, 5, 7]" by code_simp
  from search_plain_pattern [OF a b c d] e show ?thesis by simp
qed

text \<open>
  Claim C2 (search oracle): for every sequence with exactly one sentinel and every
  pattern no longer than the sequence, the search returns exactly the indices found by the
  brute-force scan, ascending. The code breaks it in two ways. It matches the pattern
  against the rotations, and a rotation runs on from the sentinel to the first symbol: over
  \<open>TAGACAGAGA$\<close> the pattern \<open>$T\<close>, which occurs nowhere, is reported at offset 10,
  although the method documents that it returns the positions where the pattern was found
  and an empty list when there is none. And a pattern with a symbol that is not in the
  sequence, such as \<open>GX\<close>, raises \<open>KeyError\<close> where the scan finds nothing, the
  defect of claim C3.
\<close>

theorem search_oracle_fails:
  "search ''TAGACAGAGA$'' ''$T'' = Inr [10]
   \<and> brute_force_scan ''TAGACAGAGA$'' ''$T'' = []
   \<and> search ''TAGACAGAGA$'' ''GX'' = Inl KeyError
   \<and> brute_force_scan ''TAGACAGAGA$'' ''GX'' = []"
  by code_simp

end
